theory Spec2Isabelle
  imports Main
begin

section \<open>Regular expressions as the source writes them\<close>

text \<open>
  Python strings are modelled as \<open>string\<close>: a \<open>char\<close> is read as the code point of the same
  number (U+0000 to U+00FF); code points above U+00FF are outside the model. The character
  classes below are those of Python's \<open>re\<close> on \<open>str\<close> patterns, restricted to that range.
\<close>

definition is_digit :: "char \<Rightarrow> bool" where
  \<comment> \<open>\<open>\d\<close>\<close>
  "is_digit c = (let n = (of_char c :: nat) in 48 \<le> n \<and> n \<le> 57)"

definition is_space :: "char \<Rightarrow> bool" where
  \<comment> \<open>\<open>\s\<close>, and the characters \<open>str.strip()\<close> removes\<close>
  "is_space c = (let n = (of_char c :: nat) in
     (9 \<le> n \<and> n \<le> 13) \<or> (28 \<le> n \<and> n \<le> 32) \<or> n = 133 \<or> n = 160)"

definition is_word :: "char \<Rightarrow> bool" where
  \<comment> \<open>\<open>\w\<close>\<close>
  "is_word c = (let n = (of_char c :: nat) in
     (48 \<le> n \<and> n \<le> 57) \<or> (65 \<le> n \<and> n \<le> 90) \<or> n = 95 \<or> (97 \<le> n \<and> n \<le> 122)
     \<or> n = 170 \<or> n = 178 \<or> n = 179 \<or> n = 181 \<or> n = 185 \<or> n = 186
     \<or> (188 \<le> n \<and> n \<le> 190) \<or> (192 \<le> n \<and> n \<le> 214) \<or> (216 \<le> n \<and> n \<le> 246)
     \<or> (248 \<le> n \<and> n \<le> 255))"

definition not_newline :: "char \<Rightarrow> bool" where
  \<comment> \<open>\<open>.\<close> without DOTALL\<close>
  "not_newline c = (c \<noteq> CHR 0x0A)"

definition not_rbrace :: "char \<Rightarrow> bool" where
  \<comment> \<open>\<open>[^}]\<close>\<close>
  "not_rbrace c = (c \<noteq> CHR ''}'')"

text \<open>
  The constructs the patterns of the source use: a literal, a greedy \<open>*\<close> and \<open>+\<close> over a
  character class, and a greedy \<open>?\<close>. A pattern is the list of its items, in order.
\<close>

datatype rx =
    Lit string
  | Star "char \<Rightarrow> bool"
  | Plus "char \<Rightarrow> bool"
  | Opt rx

text \<open>
  \<open>rx_run r s\<close> lists what is left of \<open>s\<close> after each way \<open>r\<close> can match a prefix of
  \<open>s\<close>, in the order a backtracking matcher tries them (greedy first); \<open>rx_runs\<close> does
  so for a sequence of items.
\<close>

fun star_run :: "(char \<Rightarrow> bool) \<Rightarrow> string \<Rightarrow> string list" where
  "star_run P [] = [[]]"
| "star_run P (c # s) = (if P c then star_run P s @ [c # s] else [c # s])"

fun rx_run :: "rx \<Rightarrow> string \<Rightarrow> string list" where
  "rx_run (Lit l) s = (if take (length l) s = l then [drop (length l) s] else [])"
| "rx_run (Star P) s = star_run P s"
| "rx_run (Plus P) s = (case s of [] \<Rightarrow> [] | c # t \<Rightarrow> if P c then star_run P t else [])"
| "rx_run (Opt r) s = rx_run r s @ [s]"

fun rx_runs :: "rx list \<Rightarrow> string \<Rightarrow> string list" where
  "rx_runs [] s = [s]"
| "rx_runs (r # rs) s = concat (map (rx_runs rs) (rx_run r s))"

text \<open>
  \<open>re.match\<close> of a pattern \<open>pre(grp)post\<close> with one capturing group: the match is
  anchored at the start of the string only, and \<open>group(1)\<close> is read from the first way the
  whole pattern matches.
\<close>

definition re_match_group1 :: "rx list \<Rightarrow> rx list \<Rightarrow> rx list \<Rightarrow> string \<Rightarrow> string option" where
  "re_match_group1 pre grp post s =
     (case concat (map (\<lambda>s1. concat (map (\<lambda>s2. map (\<lambda>s3. take (length s1 - length s2) s1)
                                                   (rx_runs post s2))
                                        (rx_runs grp s1)))
                       (rx_runs pre s)) of
        [] \<Rightarrow> None
      | g # _ \<Rightarrow> Some g)"

section \<open>The URL matcher\<close>

datatype site = RoyalRoad | RoyalRoadL

fun domain :: "site \<Rightarrow> string" where
  "domain RoyalRoad = ''royalroad''"
| "domain RoyalRoadL = ''royalroadldl''"

definition fiction_prefix_rx :: "site \<Rightarrow> rx list" where
  \<comment> \<open>\<open>https?://(?:www\.)?%s\.com/fiction/\<close>\<close>
  "fiction_prefix_rx cls = [Lit ''http'', Opt (Lit ''s''), Lit ''://'', Opt (Lit ''www.''),
     Lit (domain cls), Lit ''.com/fiction/'']"

definition fiction_tail_rx :: "rx list" where
  \<comment> \<open>\<open>/?.*\<close>\<close>
  "fiction_tail_rx = [Opt (Lit ''/''), Star not_newline]"

definition matches :: "site \<Rightarrow> string \<Rightarrow> string option" where
  "matches cls url =
     (case re_match_group1 [] (fiction_prefix_rx cls @ [Plus is_digit]) fiction_tail_rx url of
        None \<Rightarrow> None
      | Some g \<Rightarrow> Some (g @ ''/''))"

text \<open>
  The spec's "URL containing the \<open>/fiction/<digits>\<close> pattern for this domain", as a test on
  the string: somewhere in it stands \<open><domain>.com/fiction/\<close> followed by a digit.
\<close>

definition fiction_id_here :: "site \<Rightarrow> string \<Rightarrow> bool" where
  "fiction_id_here cls s =
     (let pat = domain cls @ ''.com/fiction/'' in
      take (length pat) s = pat \<and> (case drop (length pat) s of [] \<Rightarrow> False | d # _ \<Rightarrow> is_digit d))"

fun contains_fiction_id :: "site \<Rightarrow> string \<Rightarrow> bool" where
  "contains_fiction_id cls [] = False"
| "contains_fiction_id cls (c # s) = (fiction_id_here cls (c # s) \<or> contains_fiction_id cls s)"


section \<open>Parsed pages\<close>

text \<open>
  A parsed page is a tree of text nodes and elements. An element carries the identity of the
  Python object that stands for it (a number, distinct for distinct objects), its tag name,
  the token list of its \<open>class\<close> attribute (\<open>None\<close> when the attribute is absent), its
  other attributes in order, and its children. The functions below are those of the
  parser library that the source calls, on this tree.
\<close>

datatype node =
    Text string
  | Elem nat string "string list option" "(string \<times> string) list" "node list"

datatype error = AttributeError | TypeError | KeyError | ValueError | Other string

fun ident :: "node \<Rightarrow> nat" where
  "ident (Elem i n c a ks) = i"
| "ident (Text s) = 0"

fun is_id :: "nat \<Rightarrow> node \<Rightarrow> bool" where
  "is_id i (Elem j n c a ks) = (j = i)"
| "is_id i (Text s) = False"

fun is_tag :: "string \<Rightarrow> node \<Rightarrow> bool" where
  "is_tag nm (Elem i n c a ks) = (n = nm)"
| "is_tag nm (Text s) = False"

fun classes :: "node \<Rightarrow> string list option" where
  "classes (Elem i n c a ks) = c"
| "classes (Text s) = None"

fun has_class :: "string \<Rightarrow> node \<Rightarrow> bool" where
  \<comment> \<open>\<open>class_=c\<close> for a \<open>c\<close> without white space\<close>
  "has_class c (Elem i n None a ks) = False"
| "has_class c (Elem i n (Some cs) a ks) = (c \<in> set cs)"
| "has_class c (Text s) = False"

fun get_attr :: "string \<Rightarrow> node \<Rightarrow> string option" where
  \<comment> \<open>\<open>tag.get(k)\<close>\<close>
  "get_attr k (Elem i n c a ks) = map_of a k"
| "get_attr k (Text s) = None"

fun set_attr :: "string \<Rightarrow> string \<Rightarrow> node \<Rightarrow> node" where
  \<comment> \<open>\<open>tag[k] = v\<close>\<close>
  "set_attr k v (Elem i n c a ks) =
     Elem i n c (if k \<in> set (map fst a) then map (\<lambda>(k', v'). if k' = k then (k', v) else (k', v')) a
                 else a @ [(k, v)]) ks"
| "set_attr k v (Text s) = Text s"

fun descendants :: "node \<Rightarrow> node list" where
  \<comment> \<open>in document order, the node itself left out\<close>
  "descendants (Text s) = []"
| "descendants (Elem i n c a ks) = concat (map (\<lambda>k. k # descendants k) ks)"

fun descendants_anc :: "node list \<Rightarrow> node \<Rightarrow> (node list \<times> node) list" where
  \<comment> \<open>each descendant with its ancestors, the parent first\<close>
  "descendants_anc anc (Text s) = []"
| "descendants_anc anc (Elem i n c a ks) =
     concat (map (\<lambda>k. (Elem i n c a ks # anc, k) # descendants_anc (Elem i n c a ks # anc) k) ks)"

definition find_all :: "(node \<Rightarrow> bool) \<Rightarrow> node \<Rightarrow> node list" where
  "find_all P x = filter P (descendants x)"

definition find_first :: "(node \<Rightarrow> bool) \<Rightarrow> node \<Rightarrow> node option" where
  \<comment> \<open>\<open>find\<close>\<close>
  "find_first P x = List.find P (descendants x)"

definition lookup_id :: "nat \<Rightarrow> node list \<Rightarrow> node option" where
  \<comment> \<open>the element of that identity, among some trees\<close>
  "lookup_id i roots = List.find (is_id i) (concat (map (\<lambda>r. r # descendants r) roots))"

fun the_string :: "node \<Rightarrow> string option" where
  \<comment> \<open>\<open>.string\<close>\<close>
  "the_string (Text s) = Some s"
| "the_string (Elem i n c a []) = None"
| "the_string (Elem i n c a [k]) = the_string k"
| "the_string (Elem i n c a (k # k' # ks)) = None"

text \<open>
  \<open>get_text\<close>. The parser library gives the strings that stand inside certain elements a
  class of their own (\<open>script\<close>, \<open>style\<close> and \<open>template\<close>; \<open>rt\<close> and \<open>rp\<close> as well in
  its later versions), and \<open>get_text\<close> of an element leaves those strings out: \<open>cs\<close> lists
  the names of these elements, and \<open>texts cs\<close> does not go into them. \<open>get_text\<close> of an
  element that is itself one of them gives its own strings. The element asked is taken not
  to have stood inside one of them when the page was parsed; comments are not part of the
  tree.
\<close>

fun texts :: "string list \<Rightarrow> node \<Rightarrow> string list" where
  "texts cs (Text s) = [s]"
| "texts cs (Elem i n c a ks) = (if n \<in> set cs then [] else concat (map (texts cs) ks))"

fun own_texts :: "string list \<Rightarrow> node \<Rightarrow> string list" where
  "own_texts cs (Text s) = [s]"
| "own_texts cs (Elem i n c a ks) = concat (map (texts cs) ks)"

definition strip :: "string \<Rightarrow> string" where
  \<comment> \<open>\<open>str.strip()\<close>\<close>
  "strip s = rev (dropWhile is_space (rev (dropWhile is_space s)))"

definition get_text :: "string list \<Rightarrow> node \<Rightarrow> string" where
  "get_text cs x = concat (own_texts cs x)"

definition get_text_strip :: "string list \<Rightarrow> node \<Rightarrow> string" where
  \<comment> \<open>\<open>get_text(strip=True)\<close>: every string stripped, the empty ones dropped\<close>
  "get_text_strip cs x = concat (filter (\<lambda>s. s \<noteq> []) (map strip (own_texts cs x)))"

text \<open>
  Editing in place. \<open>subst_id i f\<close> puts \<open>f k\<close> where the child \<open>k\<close> of identity \<open>i\<close>
  stands in its parent's children; a root is not a child and stays.
\<close>

fun subst_id :: "nat \<Rightarrow> (node \<Rightarrow> node list) \<Rightarrow> node \<Rightarrow> node" where
  "subst_id i f (Text s) = Text s"
| "subst_id i f (Elem j n c a ks) =
     Elem j n c a (concat (map (\<lambda>k. if is_id i k then f k else [subst_id i f k]) ks))"

definition remove_id :: "nat \<Rightarrow> node \<Rightarrow> node" where
  "remove_id i = subst_id i (\<lambda>k. [])"

definition put :: "nat \<Rightarrow> node \<Rightarrow> node \<Rightarrow> node" where
  \<comment> \<open>the page in which the block of identity \<open>i\<close> has become \<open>c\<close>\<close>
  "put i c page = subst_id i (\<lambda>k. [c]) page"

definition has_parent :: "nat \<Rightarrow> node list \<Rightarrow> bool" where
  "has_parent i roots = list_ex (\<lambda>r. list_ex (is_id i) (descendants r)) roots"

definition extract_id :: "nat \<Rightarrow> node list \<Rightarrow> node list" where
  \<comment> \<open>\<open>extract()\<close>: an element that has a parent leaves it and is a root from then on\<close>
  "extract_id i roots =
     (case List.find (is_id i) (concat (map descendants roots)) of
        None \<Rightarrow> roots
      | Some x \<Rightarrow> map (remove_id i) roots @ [x])"

definition max_id :: "node list \<Rightarrow> nat" where
  "max_id roots = foldr max (map ident (concat (map (\<lambda>r. r # descendants r) roots))) 0"

text \<open>
  The identities of the elements of a tree, in document order; they are pairwise distinct
  in a tree of Python objects. \<open>outside i x\<close> lists the descendants of \<open>x\<close> that do not lie
  in the block of identity \<open>i\<close>.
\<close>

fun ids :: "node \<Rightarrow> nat list" where
  "ids (Text s) = []"
| "ids (Elem i n c a ks) = i # concat (map ids ks)"

fun outside :: "nat \<Rightarrow> node \<Rightarrow> node list" where
  "outside i (Text s) = []"
| "outside i (Elem j n c a ks) =
     concat (map (\<lambda>k. if is_id i k then [] else k # outside i k) ks)"

section \<open>The collaborators of the site plugin\<close>

text \<open>
  What the plugin calls and does not define: the framework's page fetcher, URL joiner,
  generic cleaner and tag constructor, the parser library's serializer and its list of the
  elements whose strings \<open>get_text\<close> leaves out, and the Python functions that read the
  time stamp. The generic cleaner edits the block it is given in place: \<open>base_clean\<close>
  gives the block as it is afterwards (the source drops what \<open>_clean\<close> returns and goes on
  with the block it passed in). \<open>new_tag_attrs nm c\<close> gives the class list and the
  attributes of the element that \<open>_new_tag(nm, class_=c)\<close> makes.
\<close>

record framework =
  soup_of :: "string \<Rightarrow> error + node"
  join_url :: "string \<Rightarrow> string \<Rightarrow> string"
  base_clean :: "node \<Rightarrow> error + node"
  new_tag_attrs :: "string \<Rightarrow> string \<Rightarrow> string list option \<times> (string \<times> string) list"
  str_of :: "node \<Rightarrow> string"
  string_containers :: "string list"
  py_int :: "string \<Rightarrow> error + int"
  fromtimestamp :: "int \<Rightarrow> error + int"

record options =
  skip_spoilers :: bool
  offset :: "int option"
  limit :: "int option"

record self =
  klass :: site
  opts :: options
  footnotes :: "string list"

section \<open>The hidden-warning remover\<close>

definition hidden_class :: "string \<Rightarrow> string option" where
  \<comment> \<open>\<open>re.match(r'\s*\.(\w+)\s*{[^}]*display:\s*none;[^}]*}', s)\<close>, its \<open>group(1)\<close>\<close>
  "hidden_class s = re_match_group1
     [Star is_space, Lit ''.'']
     [Plus is_word]
     [Star is_space, Lit ''{'', Star not_rbrace, Lit ''display:'', Star is_space, Lit ''none;'',
      Star not_rbrace, Lit ''}'']
     s"

definition style_string :: "node \<Rightarrow> node \<Rightarrow> string option" where
  \<comment> \<open>\<open>style.string\<close> in the page as it is now; an element that was destroyed has none\<close>
  "style_string page style =
     (case lookup_id (ident style) [page] of None \<Rightarrow> None | Some e \<Rightarrow> the_string e)"

definition decompose_all :: "string \<Rightarrow> node \<Rightarrow> node" where
  \<comment> \<open>\<open>for warning in contents.find_all(class_=g): warning.decompose()\<close>\<close>
  "decompose_all g contents =
     foldl (\<lambda>c warning. remove_id (ident warning) c) contents (find_all (has_class g) contents)"

text \<open>
  The loop over the style elements of the page. The state is the content block; the page is the
  fetched page with the content block, of identity \<open>cid\<close>, as it is now. The result is the
  block as the loop leaves it and the exception, if one was raised.
\<close>

fun clean_styles :: "node \<Rightarrow> nat \<Rightarrow> node list \<Rightarrow> node \<Rightarrow> node \<times> error option" where
  "clean_styles full_page cid [] contents = (contents, None)"
| "clean_styles full_page cid (style # styles) contents =
     (case style_string (put cid contents full_page) style of
        None \<Rightarrow> (contents, Some TypeError)
      | Some s \<Rightarrow>
          (case hidden_class s of
             None \<Rightarrow> clean_styles full_page cid styles contents
           | Some g \<Rightarrow> clean_styles full_page cid styles (decompose_all g contents)))"

definition clean :: "framework \<Rightarrow> node \<Rightarrow> node \<Rightarrow> node \<times> error option" where
  \<comment> \<open>\<open>RoyalRoad._clean(contents, full_page)\<close>\<close>
  "clean fw contents full_page =
     (case base_clean fw contents of
        Inl e \<Rightarrow> (contents, Some e)
      | Inr c \<Rightarrow>
          clean_styles full_page (ident contents)
            (find_all (is_tag ''style'') (put (ident contents) c full_page)) c)"

section \<open>The spoiler normalizer\<close>

fun update_id :: "nat \<Rightarrow> (node \<Rightarrow> node) \<Rightarrow> node \<Rightarrow> node" where
  "update_id i g (Text s) = Text s"
| "update_id i g (Elem j n c a ks) =
     (if j = i then g (Elem j n c a ks) else Elem j n c a (map (update_id i g) ks))"

definition new_tag :: "framework \<Rightarrow> nat \<Rightarrow> string \<Rightarrow> string \<Rightarrow> node list \<Rightarrow> node" where
  \<comment> \<open>a new element of identity \<open>i\<close>, with the children given\<close>
  "new_tag fw i nm c ks = (case new_tag_attrs fw nm c of (cl, a) \<Rightarrow> Elem i nm cl a ks)"

definition is_smalltext :: "node \<Rightarrow> bool" where
  \<comment> \<open>\<open>find('div', class_='smalltext')\<close>\<close>
  "is_smalltext x = (is_tag ''div'' x \<and> has_class ''smalltext'' x)"

definition is_spoiler_content :: "node \<Rightarrow> bool" where
  "is_spoiler_content x = (is_tag ''div'' x \<and> has_class ''spoilerContent'' x)"

definition is_spoiler_inner :: "node \<Rightarrow> bool" where
  "is_spoiler_inner x = (is_tag ''div'' x \<and> has_class ''spoiler-inner'' x)"

text \<open>
  One turn of the loop of \<open>_clean_spoilers\<close>, for the spoiler of identity \<open>i\<close>. The state is
  the content block, first, followed by what has been extracted from it so far: the spoilers
  listed before the loop stay Python objects after they have left the tree, so each of them
  is found in the state and the first branch below is never taken. \<open>insert_before\<close> raises
  \<open>ValueError\<close> on an element that has no parent.
\<close>

definition spoiler_step :: "framework \<Rightarrow> nat \<Rightarrow> node list \<Rightarrow> error + node list" where
  "spoiler_step fw i roots =
     (case lookup_id i roots of
        None \<Rightarrow> Inr roots
      | Some spoiler \<Rightarrow>
     (case find_first is_smalltext spoiler of
        None \<Rightarrow> Inl AttributeError
      | Some label \<Rightarrow>
          let spoiler_title = get_text_strip (string_containers fw) label;
              spoiler_title = (if spoiler_title = [] then '' '' else spoiler_title);
              spoiler_header = ''[SPOILER - '' @ spoiler_title @ '']'';
              h = Suc (max_id roots);
              spoiler_header_tag = new_tag fw h ''strong'' ''spoiler-header'' [Text spoiler_header]
          in
     (case find_first is_spoiler_content spoiler of
        None \<Rightarrow> Inr roots
      | Some spoiler_content \<Rightarrow>
     (case find_first is_spoiler_inner spoiler_content of
        None \<Rightarrow> Inr roots
      | Some spoiler_inner \<Rightarrow>
          if \<not> has_parent i roots then Inl ValueError
          else
            let j = ident spoiler_inner;
                r1 = map (subst_id i (\<lambda>k. [spoiler_header_tag, k])) roots;
                r2 = map (subst_id h (\<lambda>k. [k, spoiler_inner])) (map (remove_id j) r1);
                r3 = map (update_id j (set_attr ''style'' [])) r2;
                r4 = foldl (\<lambda>r tag_to_remove. extract_id (ident tag_to_remove) r) r3
                       (case lookup_id i r3 of
                          None \<Rightarrow> []
                        | Some s \<Rightarrow> find_all (\<lambda>x. is_tag ''div'' x \<or> is_tag ''input'' x) s)
            in Inr (extract_id i r4)))))"

fun spoilers_loop :: "framework \<Rightarrow> nat list \<Rightarrow> node list \<Rightarrow> error + node list" where
  "spoilers_loop fw [] roots = Inr roots"
| "spoilers_loop fw (i # rest) roots =
     (case spoiler_step fw i roots of
        Inl e \<Rightarrow> Inl e
      | Inr roots' \<Rightarrow> spoilers_loop fw rest roots')"

definition clean_spoilers :: "framework \<Rightarrow> node \<Rightarrow> nat \<Rightarrow> error + node" where
  \<comment> \<open>\<open>RoyalRoad._clean_spoilers(content, chapterid)\<close>: the block as the loop leaves it\<close>
  "clean_spoilers fw content chapterid =
     (case spoilers_loop fw (map ident (find_all (has_class ''spoiler'') content)) [content] of
        Inl e \<Rightarrow> Inl e
      | Inr roots \<Rightarrow> (case roots of [] \<Rightarrow> Inr content | c # _ \<Rightarrow> Inr c))"

text \<open>
  Freedom from a class: no element of the tree, the root included, is of class \<open>g\<close>. The
  state of the spoiler loop is free of \<open>g\<close> when the content block has no descendant of
  class \<open>g\<close> and what was extracted is free of it.
\<close>

definition class_free :: "string \<Rightarrow> node \<Rightarrow> bool" where
  "class_free g x = (\<forall>y\<in>set (x # descendants x). \<not> has_class g y)"

definition roots_free :: "string \<Rightarrow> node list \<Rightarrow> bool" where
  "roots_free g roots =
     (case roots of
        [] \<Rightarrow> False
      | c # extracted \<Rightarrow> find_all (has_class g) c = [] \<and> (\<forall>d\<in>set extracted. class_free g d))"

section \<open>The chapter parser\<close>

definition find_first_anc :: "(node \<Rightarrow> bool) \<Rightarrow> node \<Rightarrow> (node list \<times> node) option" where
  \<comment> \<open>\<open>find\<close>, with the ancestors of what it finds\<close>
  "find_first_anc P x = List.find (\<lambda>(anc, k). P k) (descendants_anc [] x)"

definition is_chapter_content :: "node \<Rightarrow> bool" where
  "is_chapter_content x = (is_tag ''div'' x \<and> has_class ''chapter-content'' x)"

definition is_author_note :: "node \<Rightarrow> bool" where
  "is_author_note x = (is_tag ''div'' x \<and> has_class ''author-note-portlet'' x)"

definition with_notes :: "framework \<Rightarrow> node \<Rightarrow> string \<Rightarrow> error + string" where
  \<comment> \<open>lines 94 to 103 of \<open>_chapter\<close>\<close>
  "with_notes fw soup content =
     (let author_note = find_all is_author_note soup in
      if length author_note = 1 then
        (case find_first_anc is_chapter_content soup of
           None \<Rightarrow> Inl AttributeError
         | Some (anc, c) \<Rightarrow>
        (case anc of
           [] \<Rightarrow> Inl AttributeError
         | parent # _ \<Rightarrow>
        (case find_first (is_tag ''div'') parent of
           None \<Rightarrow> Inl TypeError
         | Some d \<Rightarrow>
        (case classes d of
           None \<Rightarrow> Inl KeyError
         | Some cs \<Rightarrow>
             if ''author-note-portlet'' \<in> set cs
             then Inr (str_of fw (author_note ! 0) @ ''<hr/>'' @ content)
             else Inr (content @ ''<hr/>'' @ str_of fw (author_note ! 0))))))
      else if length author_note = 2 then
        Inr (str_of fw (author_note ! 0) @ ''<hr/>'' @ content @ ''<hr/>'' @ str_of fw (author_note ! 1))
      else Inr content)"

definition updated_of :: "framework \<Rightarrow> node \<Rightarrow> error + int" where
  \<comment> \<open>lines 105 to 107 of \<open>_chapter\<close>\<close>
  "updated_of fw soup =
     (case find_first (has_class ''profile-info'') soup of
        None \<Rightarrow> Inl AttributeError
      | Some p \<Rightarrow>
     (case find_first (is_tag ''time'') p of
        None \<Rightarrow> Inl AttributeError
      | Some t \<Rightarrow>
     (case get_attr ''unixtime'' t of
        None \<Rightarrow> Inl TypeError
      | Some v \<Rightarrow>
     (case py_int fw v of
        Inl e \<Rightarrow> Inl e
      | Inr n \<Rightarrow> fromtimestamp fw n))))"

text \<open>
  \<open>RoyalRoad._chapter(url, chapterid)\<close>, in two parts. \<open>chapter_soup\<close> is lines 85 to 90:
  it gives the content block as the two cleaners leave it, and the page with that block in
  it (the block is edited in place, so this is the page that the author's notes and the
  time stamp are read from). With no content block, \<open>None\<close> goes to the cleaners, which
  call a method of it.
\<close>

definition chapter_soup :: "framework \<Rightarrow> self \<Rightarrow> string \<Rightarrow> nat \<Rightarrow> error + node \<times> node" where
  "chapter_soup fw slf url chapterid =
     (case soup_of fw url of
        Inl e \<Rightarrow> Inl e
      | Inr soup \<Rightarrow>
     (case find_first is_chapter_content soup of
        None \<Rightarrow> Inl AttributeError
      | Some content \<Rightarrow>
     (case clean fw content soup of
        (c1, Some e) \<Rightarrow> Inl e
      | (c1, None) \<Rightarrow>
     (case clean_spoilers fw c1 chapterid of
        Inl e \<Rightarrow> Inl e
      | Inr c2 \<Rightarrow> Inr (c2, put (ident content) c2 soup)))))"

definition chapter_rr :: "framework \<Rightarrow> self \<Rightarrow> string \<Rightarrow> nat \<Rightarrow> error + string \<times> int" where
  "chapter_rr fw slf url chapterid =
     (case chapter_soup fw slf url chapterid of
        Inl e \<Rightarrow> Inl e
      | Inr (content, soup) \<Rightarrow>
     (case with_notes fw soup (str_of fw content) of
        Inl e \<Rightarrow> Inl e
      | Inr content' \<Rightarrow>
     (case updated_of fw soup of
        Inl e \<Rightarrow> Inl e
      | Inr updated \<Rightarrow> Inr (content', updated))))"

section \<open>The story page parser\<close>

text \<open>
  Modelled from the spec: the framework's \<open>Section\<close> and \<open>Chapter\<close> classes, which are not
  part of the plugin. A Story has a title, an author, a canonical URL, a cover image URL, a
  summary, tags, the ordered sequence of its Chapters and footnotes; a Chapter has a title,
  contents and a publication date. \<open>len(story)\<close> is the current chapter count and
  \<open>story.add\<close> appends a Chapter.
\<close>

record chapter_rec =
  ch_title :: string
  ch_contents :: string
  ch_date :: int

record section_rec =
  s_title :: string
  s_author :: string
  s_url :: string
  s_cover_url :: string
  s_summary :: string
  s_tags :: "string list"
  s_contents :: "chapter_rec list"
  s_footnotes :: "string list"

definition attr_is :: "string \<Rightarrow> string \<Rightarrow> node \<Rightarrow> bool" where
  "attr_is k v x = (get_attr k x = Some v)"

definition select_anc :: "(node \<Rightarrow> bool) \<Rightarrow> (node \<Rightarrow> bool) \<Rightarrow> (node \<Rightarrow> bool) \<Rightarrow> node \<Rightarrow> node list" where
  \<comment> \<open>\<open>soup.select('A B C')\<close>: the \<open>C\<close> below a \<open>B\<close> below an \<open>A\<close>; the document itself,
      last among the ancestors, is no element\<close>
  "select_anc A B C soup =
     map snd (filter (\<lambda>(anc, k). C k \<and> list_ex A (drop 1 (dropWhile (\<lambda>a. \<not> B a) (butlast anc))))
                     (descendants_anc [] soup))"

definition select_tags :: "node \<Rightarrow> node list" where
  \<comment> \<open>\<open>soup.select('span.tags a.fiction-tag')\<close>\<close>
  "select_tags soup =
     map snd (filter (\<lambda>(anc, k). is_tag ''a'' k \<and> has_class ''fiction-tag'' k
                         \<and> list_ex (\<lambda>a. is_tag ''span'' a \<and> has_class ''tags'' a) (butlast anc))
                     (descendants_anc [] soup))"

definition select_rows :: "node \<Rightarrow> node list" where
  \<comment> \<open>\<open>soup.select('#chapters tbody tr[data-url]')\<close>\<close>
  "select_rows soup =
     select_anc (attr_is ''id'' ''chapters'') (is_tag ''tbody'')
       (\<lambda>k. is_tag ''tr'' k \<and> get_attr ''data-url'' k \<noteq> None) soup"

definition meta_content :: "string \<Rightarrow> node \<Rightarrow> error + string" where
  \<comment> \<open>\<open>soup.find('meta', property=p).get('content').strip()\<close>\<close>
  "meta_content p soup =
     (case find_first (\<lambda>x. is_tag ''meta'' x \<and> attr_is ''property'' p x) soup of
        None \<Rightarrow> Inl AttributeError
      | Some m \<Rightarrow>
     (case get_attr ''content'' m of
        None \<Rightarrow> Inl AttributeError
      | Some v \<Rightarrow> Inr (strip v)))"

definition new_section :: "framework \<Rightarrow> node \<Rightarrow> string \<Rightarrow> error + section_rec" where
  \<comment> \<open>lines 57 to 64 of \<open>extract\<close>, the arguments in the order they are evaluated\<close>
  "new_section fw soup base =
     (case find_first (is_tag ''h1'') soup of
        None \<Rightarrow> Inl AttributeError
      | Some h1 \<Rightarrow>
     (case the_string h1 of
        None \<Rightarrow> Inl AttributeError
      | Some t \<Rightarrow>
     (case meta_content ''books:author'' soup of
        Inl e \<Rightarrow> Inl e
      | Inr a \<Rightarrow>
     (case meta_content ''og:url'' soup of
        Inl e \<Rightarrow> Inl e
      | Inr u \<Rightarrow>
     (case find_first (\<lambda>x. is_tag ''img'' x \<and> has_class ''thumbnail'' x) soup of
        None \<Rightarrow> Inl TypeError
      | Some img \<Rightarrow>
     (case get_attr ''src'' img of
        None \<Rightarrow> Inl KeyError
      | Some src \<Rightarrow>
          Inr \<lparr> s_title = strip t, s_author = a, s_url = u,
                s_cover_url = join_url fw base src,
                s_summary = strip (case find_first (\<lambda>x. is_tag ''div'' x \<and> has_class ''description'' x) soup of
                                     None \<Rightarrow> ''None''
                                   | Some d \<Rightarrow> str_of fw d),
                s_tags = map (\<lambda>tag. strip (get_text (string_containers fw) tag)) (select_tags soup),
                s_contents = [], s_footnotes = [] \<rparr>))))))"

definition before_offset :: "options \<Rightarrow> nat \<Rightarrow> bool" where
  \<comment> \<open>\<open>self.options['offset'] and index < self.options['offset']\<close>\<close>
  "before_offset os index = (case offset os of None \<Rightarrow> False | Some n \<Rightarrow> n \<noteq> 0 \<and> int index < n)"

definition beyond_limit :: "options \<Rightarrow> nat \<Rightarrow> bool" where
  \<comment> \<open>\<open>self.options['limit'] and index >= self.options['limit']\<close>\<close>
  "beyond_limit os index = (case limit os of None \<Rightarrow> False | Some n \<Rightarrow> n \<noteq> 0 \<and> int index \<ge> n)"

definition row_title :: "node \<Rightarrow> error + string" where
  \<comment> \<open>\<open>chapter.find('a', href=True).string.strip()\<close>\<close>
  "row_title chapter =
     (case find_first (\<lambda>x. is_tag ''a'' x \<and> get_attr ''href'' x \<noteq> None) chapter of
        None \<Rightarrow> Inl AttributeError
      | Some a \<Rightarrow>
     (case the_string a of
        None \<Rightarrow> Inl AttributeError
      | Some t \<Rightarrow> Inr (strip t)))"

definition row_url :: "framework \<Rightarrow> section_rec \<Rightarrow> node \<Rightarrow> string" where
  \<comment> \<open>\<open>str(self._join_url(story.url, str(chapter.get('data-url'))))\<close>\<close>
  "row_url fw story chapter =
     join_url fw (s_url story) (case get_attr ''data-url'' chapter of None \<Rightarrow> ''None'' | Some u \<Rightarrow> u)"

definition row_chapter :: "framework \<Rightarrow> self \<Rightarrow> section_rec \<Rightarrow> node \<Rightarrow> error + chapter_rec" where
  \<comment> \<open>lines 71 to 75 of \<open>extract\<close>: the Chapter of a row\<close>
  "row_chapter fw slf story chapter =
     (case chapter_rr fw slf (row_url fw story chapter) (length (s_contents story) + 1) of
        Inl e \<Rightarrow> Inl e
      | Inr (contents, updated) \<Rightarrow>
     (case row_title chapter of
        Inl e \<Rightarrow> Inl e
      | Inr t \<Rightarrow> Inr \<lparr>ch_title = t, ch_contents = contents, ch_date = updated\<rparr>))"

fun chapters_loop :: "framework \<Rightarrow> self \<Rightarrow> (nat \<times> node) list \<Rightarrow> section_rec \<Rightarrow> error + section_rec" where
  "chapters_loop fw slf [] story = Inr story"
| "chapters_loop fw slf ((index, chapter) # rest) story =
     (if before_offset (opts slf) index then chapters_loop fw slf rest story
      else if beyond_limit (opts slf) index then chapters_loop fw slf rest story
      else
        (case row_chapter fw slf story chapter of
           Inl e \<Rightarrow> Inl e
         | Inr ch \<Rightarrow> chapters_loop fw slf rest (story\<lparr>s_contents := s_contents story @ [ch]\<rparr>)))"

text \<open>
  \<open>RoyalRoad.extract(url)\<close>. Beside the Story or the exception, the result gives the object
  and \<open>http.client._MAXHEADERS\<close> as the run leaves them.
\<close>

definition extract_rr ::
  "framework \<Rightarrow> self \<Rightarrow> int \<Rightarrow> string \<Rightarrow> (error + section_rec) \<times> self \<times> int" where
  "extract_rr fw slf maxheaders url =
     (case re_match_group1 (fiction_prefix_rx (klass slf)) [Plus is_digit] fiction_tail_rx url of
        None \<Rightarrow> (Inl AttributeError, slf, maxheaders)
      | Some workid \<Rightarrow>
     (case soup_of fw (''https://www.'' @ domain (klass slf) @ ''.com/fiction/'' @ workid) of
        Inl e \<Rightarrow> (Inl e, slf, maxheaders)
      | Inr soup \<Rightarrow>
     (case find_first (is_tag ''head'') soup of
        None \<Rightarrow> (Inl AttributeError, slf, maxheaders)
      | Some head \<Rightarrow>
          let base = (case find_first (is_tag ''base'') head of
                        None \<Rightarrow> url
                      | Some b \<Rightarrow> (case get_attr ''href'' b of
                                     None \<Rightarrow> url
                                   | Some h \<Rightarrow> if h = [] then url else h));
              original_maxheaders = maxheaders;
              maxheaders = 1000
          in
     (case new_section fw soup base of
        Inl e \<Rightarrow> (Inl e, slf, maxheaders)
      | Inr story \<Rightarrow>
     (case chapters_loop fw slf (enumerate 0 (select_rows soup)) story of
        Inl e \<Rightarrow> (Inl e, slf, maxheaders)
      | Inr story \<Rightarrow>
          (Inr (story\<lparr>s_footnotes := footnotes slf\<rparr>), slf\<lparr>footnotes := []\<rparr>,
           original_maxheaders))))))"


text \<open>
  The index range of the spec, \<open>[offset, limit)\<close> with \<open>offset\<close> 0 and \<open>limit\<close> unbounded
  when unset, and the range with a limit of 0 read as no limit.
\<close>

definition claimed_range :: "options \<Rightarrow> nat \<Rightarrow> bool" where
  "claimed_range os i =
     ((case offset os of None \<Rightarrow> 0 | Some n \<Rightarrow> n) \<le> int i
      \<and> (case limit os of None \<Rightarrow> True | Some m \<Rightarrow> int i < m))"

definition in_range :: "options \<Rightarrow> nat \<Rightarrow> bool" where
  "in_range os i =
     ((case offset os of None \<Rightarrow> 0 | Some n \<Rightarrow> n) \<le> int i
      \<and> (case limit os of None \<Rightarrow> True | Some m \<Rightarrow> m = 0 \<or> int i < m))"

section \<open>An instance of the collaborators, for the examples\<close>

fun join_sp :: "string list \<Rightarrow> string" where
  "join_sp [] = []"
| "join_sp [x] = x"
| "join_sp (x # y # zs) = x @ '' '' @ join_sp (y # zs)"

text \<open>A plain serializer: attribute values are written without quotes.\<close>

fun outer_html :: "node \<Rightarrow> string" where
  "outer_html (Text s) = s"
| "outer_html (Elem i n c a ks) =
     ''<'' @ n
     @ (case c of None \<Rightarrow> [] | Some cs \<Rightarrow> '' class='' @ join_sp cs)
     @ concat (map (\<lambda>(k, v). '' '' @ k @ ''='' @ v) a)
     @ ''>'' @ concat (map outer_html ks) @ ''</'' @ n @ ''>''"

definition dec_int :: "string \<Rightarrow> error + int" where
  "dec_int s = (if s \<noteq> [] \<and> list_all is_digit s
                then Inr (foldl (\<lambda>n c. 10 * n + (int (of_char c) - 48)) 0 s)
                else Inl ValueError)"

definition demo_fw :: "(string \<Rightarrow> error + node) \<Rightarrow> framework" where
  "demo_fw pages = \<lparr> soup_of = pages, join_url = (\<lambda>b r. b @ r), base_clean = Inr,
     new_tag_attrs = (\<lambda>nm c. (Some [c], [])), str_of = outer_html,
     string_containers = [''script'', ''style'', ''template'', ''rt'', ''rp''],
     py_int = dec_int, fromtimestamp = Inr \<rparr>"

definition demo_self :: "bool \<Rightarrow> int option \<Rightarrow> int option \<Rightarrow> self" where
  "demo_self sk off lim =
     \<lparr> klass = RoyalRoad, opts = \<lparr> skip_spoilers = sk, offset = off, limit = lim \<rparr>, footnotes = [] \<rparr>"

definition demo_page :: "node list \<Rightarrow> node list \<Rightarrow> node list \<Rightarrow> node list \<Rightarrow> node" where
  \<comment> \<open>a chapter page: the style elements of its head, what stands before the content block,
      the children of the block, what stands after it\<close>
  "demo_page styles pre kids post =
     Elem 0 ''[document]'' None []
       [Elem 1 ''html'' None []
          [Elem 2 ''head'' None [] styles,
           Elem 3 ''body'' None []
             [Elem 4 ''div'' (Some [''profile-info'']) []
                [Elem 5 ''time'' None [(''unixtime'', ''1700000000'')] [Text ''Nov 14'']],
              Elem 6 ''div'' (Some [''portlet-body'']) []
                (pre @ [Elem 7 ''div'' (Some [''chapter-content'']) [] kids] @ post)]]]"

definition demo_spoiler :: "node list \<Rightarrow> node list \<Rightarrow> node" where
  \<comment> \<open>a spoiler: its label blocks and its content blocks\<close>
  "demo_spoiler label body = Elem 10 ''div'' (Some [''spoiler'']) [] (label @ body)"

definition demo_label :: "string \<Rightarrow> node" where
  "demo_label t = Elem 11 ''div'' (Some [''smalltext'']) []
     [Text t, Elem 12 ''input'' None [(''type'', ''button'')] []]"

definition demo_body :: "string \<Rightarrow> node" where
  "demo_body t = Elem 13 ''div'' (Some [''spoilerContent'']) []
     [Elem 14 ''div'' (Some [''spoiler-inner'']) [(''style'', ''display:none'')] [Text t]]"

definition demo_note :: "nat \<Rightarrow> string \<Rightarrow> node" where
  "demo_note i t = Elem i ''div'' (Some [''author-note-portlet'']) [] [Text t]"

definition demo_row :: "nat \<Rightarrow> string \<Rightarrow> string \<Rightarrow> node" where
  "demo_row i u t = Elem (100 + i) ''tr'' None [(''data-url'', u)]
     [Elem (200 + i) ''td'' None [] [Elem (300 + i) ''a'' None [(''href'', u)] [Text t]]]"

definition demo_story :: "node list \<Rightarrow> node list \<Rightarrow> node" where
  \<comment> \<open>a story page: its heading and the rows of its chapter table\<close>
  "demo_story heading rows =
     Elem 0 ''[document]'' None []
       [Elem 1 ''html'' None []
          [Elem 2 ''head'' None []
             [Elem 3 ''meta'' None [(''property'', ''books:author''), (''content'', '' An Author '')] [],
              Elem 4 ''meta'' None [(''property'', ''og:url''),
                 (''content'', ''https://www.royalroad.com/fiction/6752/'')] []],
           Elem 5 ''body'' None []
             (heading @
              [Elem 6 ''img'' (Some [''thumbnail'']) [(''src'', ''cover.jpg'')] [],
               Elem 7 ''div'' (Some [''description'']) [] [Text ''A summary''],
               Elem 8 ''span'' (Some [''tags'']) [] [Elem 9 ''a'' (Some [''fiction-tag'']) [] [Text '' Fantasy '']],
               Elem 10 ''table'' None [(''id'', ''chapters'')] [Elem 11 ''tbody'' None [] rows]])]]"

definition demo_site :: "node \<Rightarrow> string \<Rightarrow> error + node" where
  \<comment> \<open>the story page at its address, and at any other address a chapter page that shows
      the address\<close>
  "demo_site story u =
     (if u = ''https://www.royalroad.com/fiction/6752'' then Inr story
      else Inr (demo_page [] [] [Text u] []))"

section \<open>Properties of the URL matcher\<close>

lemma star_run_nonempty: "star_run P s \<noteq> []"
  by (induction s) auto

lemma star_run_hd: "hd (star_run P s) = dropWhile P s"
  by (induction s) (auto simp: star_run_nonempty)

lemma star_run_Cons: "\<exists>L. star_run P s = dropWhile P s # L"
  using star_run_nonempty [of P s] star_run_hd [of P s] by (cases "star_run P s") auto

lemma fiction_tail_nonempty: "rx_runs fiction_tail_rx s \<noteq> []"
  by (simp add: fiction_tail_rx_def star_run_nonempty)

lemma re_match_group1_total_post:
  assumes "\<And>x. rx_runs post x \<noteq> []"
  shows "re_match_group1 [] grp post s =
     (case rx_runs grp s of [] \<Rightarrow> None | s2 # _ \<Rightarrow> Some (take (length s - length s2) s))"
proof (cases "rx_runs grp s")
  case Nil
  then show ?thesis by (simp add: re_match_group1_def)
next
  case (Cons a M)
  obtain y ys where "rx_runs post a = y # ys" using assms [of a] by (cases "rx_runs post a") auto
  with Cons show ?thesis by (simp add: re_match_group1_def)
qed

lemma rx_runs_Lit: "rx_runs (Lit l # rs) s =
   (if take (length l) s = l then rx_runs rs (drop (length l) s) else [])"
  by simp

lemma rx_runs_Opt_Lit: "rx_runs (Opt (Lit l) # rs) s =
   (if take (length l) s = l then rx_runs rs (drop (length l) s) else []) @ rx_runs rs s"
  by simp

lemma rx_runs_single: "rx_runs [r] s = rx_run r s"
proof -
  have "concat (map (rx_runs []) L) = L" for L by (induction L) auto
  then show ?thesis by simp
qed

lemma rx_runs_Plus: "rx_runs [Plus P] s = (case s of [] \<Rightarrow> [] | c # t \<Rightarrow> if P c then star_run P t else [])"
  by (simp only: rx_runs_single rx_run.simps)


lemma fiction_run_forward:
  assumes "scheme = ''http'' \<or> scheme = ''https''" "www = [] \<or> www = ''www.''"
  shows "rx_runs (fiction_prefix_rx cls @ [Plus is_digit])
           (scheme @ ''://'' @ www @ domain cls @ ''.com/fiction/'' @ d # t)
         = (if is_digit d then star_run is_digit t else [])"
proof -
  have a: "rx_runs (fiction_prefix_rx cls @ [Plus is_digit])
           (''http'' @ ''://'' @ [] @ domain cls @ ''.com/fiction/'' @ d # t)
         = (if is_digit d then star_run is_digit t else [])"
    unfolding fiction_prefix_rx_def append.simps
    by (cases cls) (simp_all add: rx_runs_Lit rx_runs_Opt_Lit rx_runs_Plus del: rx_runs.simps)
  have b: "rx_runs (fiction_prefix_rx cls @ [Plus is_digit])
           (''https'' @ ''://'' @ [] @ domain cls @ ''.com/fiction/'' @ d # t)
         = (if is_digit d then star_run is_digit t else [])"
    unfolding fiction_prefix_rx_def append.simps
    by (cases cls) (simp_all add: rx_runs_Lit rx_runs_Opt_Lit rx_runs_Plus del: rx_runs.simps)
  have c: "rx_runs (fiction_prefix_rx cls @ [Plus is_digit])
           (''http'' @ ''://'' @ ''www.'' @ domain cls @ ''.com/fiction/'' @ d # t)
         = (if is_digit d then star_run is_digit t else [])"
    unfolding fiction_prefix_rx_def append.simps
    by (cases cls) (simp_all add: rx_runs_Lit rx_runs_Opt_Lit rx_runs_Plus del: rx_runs.simps)
  have d: "rx_runs (fiction_prefix_rx cls @ [Plus is_digit])
           (''https'' @ ''://'' @ ''www.'' @ domain cls @ ''.com/fiction/'' @ d # t)
         = (if is_digit d then star_run is_digit t else [])"
    unfolding fiction_prefix_rx_def append.simps
    by (cases cls) (simp_all add: rx_runs_Lit rx_runs_Opt_Lit rx_runs_Plus del: rx_runs.simps)
  from assms a b c d show ?thesis by blast
qed

lemma take_length_eq: "take (length l) s = l \<longleftrightarrow> (\<exists>t. s = l @ t)"
  by (metis append_eq_conv_conj append_take_drop_id)

lemma rx_runs_Lit_mem:
  "r \<in> set (rx_runs (Lit l # rs) s) \<Longrightarrow> \<exists>t. s = l @ t \<and> r \<in> set (rx_runs rs t)"
  by (auto simp: rx_runs_Lit take_length_eq simp del: rx_runs.simps split: if_splits)

lemma rx_runs_Opt_Lit_mem:
  "r \<in> set (rx_runs (Opt (Lit l) # rs) s) \<Longrightarrow>
     (\<exists>t. s = l @ t \<and> r \<in> set (rx_runs rs t)) \<or> r \<in> set (rx_runs rs s)"
  by (auto simp: rx_runs_Opt_Lit take_length_eq simp del: rx_runs.simps split: if_splits)

lemma rx_runs_Plus_mem:
  "r \<in> set (rx_runs [Plus P] s) \<Longrightarrow> \<exists>d t. s = d # t"
  by (cases s) (auto simp: rx_runs_Plus simp del: rx_runs.simps)

lemma fiction_run_backward:
  assumes "r \<in> set (rx_runs (fiction_prefix_rx cls @ [Plus is_digit]) url)"
  shows "\<exists>scheme www d t. (scheme = ''http'' \<or> scheme = ''https'') \<and> (www = [] \<or> www = ''www.'')
           \<and> url = scheme @ ''://'' @ www @ domain cls @ ''.com/fiction/'' @ d # t"
proof -
  have r0: "r \<in> set (rx_runs [Lit ''http'', Opt (Lit ''s''), Lit ''://'', Opt (Lit ''www.''),
                Lit (domain cls), Lit ''.com/fiction/'', Plus is_digit] url)"
    using assms by (simp add: fiction_prefix_rx_def del: rx_runs.simps)
  from rx_runs_Lit_mem [OF r0] obtain u1 where u1: "url = ''http'' @ u1"
    and r1: "r \<in> set (rx_runs [Opt (Lit ''s''), Lit ''://'', Opt (Lit ''www.''),
                Lit (domain cls), Lit ''.com/fiction/'', Plus is_digit] u1)"
    by blast
  from rx_runs_Opt_Lit_mem [OF r1] obtain s u2 where u2: "u1 = s @ u2" "s = [] \<or> s = ''s''"
    and r2: "r \<in> set (rx_runs [Lit ''://'', Opt (Lit ''www.''),
                Lit (domain cls), Lit ''.com/fiction/'', Plus is_digit] u2)"
    by (metis append_Nil)
  from rx_runs_Lit_mem [OF r2] obtain u3 where u3: "u2 = ''://'' @ u3"
    and r3: "r \<in> set (rx_runs [Opt (Lit ''www.''),
                Lit (domain cls), Lit ''.com/fiction/'', Plus is_digit] u3)"
    by blast
  from rx_runs_Opt_Lit_mem [OF r3] obtain www u4 where u4: "u3 = www @ u4" "www = [] \<or> www = ''www.''"
    and r4: "r \<in> set (rx_runs [Lit (domain cls), Lit ''.com/fiction/'', Plus is_digit] u4)"
    by (metis append_Nil)
  from rx_runs_Lit_mem [OF r4] obtain u5 where u5: "u4 = domain cls @ u5"
    and r5: "r \<in> set (rx_runs [Lit ''.com/fiction/'', Plus is_digit] u5)"
    by blast
  from rx_runs_Lit_mem [OF r5] obtain u6 where u6: "u5 = ''.com/fiction/'' @ u6"
    and r6: "r \<in> set (rx_runs [Plus is_digit] u6)"
    by blast
  from r6 obtain d t where u7: "u6 = d # t" by (blast dest: rx_runs_Plus_mem)
  have "url = (''http'' @ s) @ ''://'' @ www @ domain cls @ ''.com/fiction/'' @ d # t"
    using u1 u2 u3 u4 u5 u6 u7 by simp
  moreover have "''http'' @ s = ''http'' \<or> ''http'' @ s = ''https''" using u2(2) by auto
  ultimately show ?thesis using u4(2) by blast
qed


lemma contains_fiction_id_append:
  "is_digit d \<Longrightarrow> contains_fiction_id cls (p @ domain cls @ ''.com/fiction/'' @ d # t)"
proof (induction p)
  case Nil
  have "fiction_id_here cls ((domain cls @ ''.com/fiction/'') @ d # t)"
    using Nil unfolding fiction_id_here_def Let_def by (simp del: append_assoc)
  then show ?case by (cases cls) simp_all
next
  case (Cons a p)
  then show ?case by simp
qed

lemma matches_unfold:
  "matches cls url = (case rx_runs (fiction_prefix_rx cls @ [Plus is_digit]) url of
       [] \<Rightarrow> None | s2 # _ \<Rightarrow> Some (take (length url - length s2) url @ ''/''))"
  unfolding matches_def re_match_group1_total_post [OF fiction_tail_nonempty]
  by (simp split: list.splits)

lemma take_minus_dropWhile:
  "take (length (A @ xs) - length (dropWhile P xs)) (A @ xs) = A @ takeWhile P xs"
proof -
  have l: "length xs = length (takeWhile P xs) + length (dropWhile P xs)"
    by (metis length_append takeWhile_dropWhile_id)
  have "take (length (A @ takeWhile P xs)) ((A @ takeWhile P xs) @ dropWhile P xs) = A @ takeWhile P xs"
    by (simp del: append_assoc takeWhile_dropWhile_id)
  moreover have "length (A @ xs) - length (dropWhile P xs) = length (A @ takeWhile P xs)"
    using l by simp
  ultimately show ?thesis by simp
qed

lemma matches_form:
  assumes "scheme = ''http'' \<or> scheme = ''https''" "www = [] \<or> www = ''www.''"
  shows "matches cls (scheme @ ''://'' @ www @ domain cls @ ''.com/fiction/'' @ d # t) =
     (if is_digit d
      then Some (scheme @ ''://'' @ www @ domain cls @ ''.com/fiction/'' @ d # takeWhile is_digit t @ ''/'')
      else None)"
proof (cases "is_digit d")
  case False
  then show ?thesis
    unfolding matches_unfold fiction_run_forward [OF assms] by simp
next
  case True
  obtain L where L: "star_run is_digit t = dropWhile is_digit t # L"
    using star_run_Cons by blast
  let ?A = "scheme @ ''://'' @ www @ domain cls @ ''.com/fiction/'' @ [d]"
  have u: "scheme @ ''://'' @ www @ domain cls @ ''.com/fiction/'' @ d # t = ?A @ t"
    by simp
  have "matches cls (?A @ t) = Some ((?A @ takeWhile is_digit t) @ ''/'')"
    unfolding matches_unfold
    using fiction_run_forward [OF assms, of cls d t] True L
    by (simp only: u list.case if_True take_minus_dropWhile)
  then show ?thesis using True by simp
qed

lemma matches_None:
  assumes "\<not> contains_fiction_id cls url"
  shows "matches cls url = None"
proof (cases "rx_runs (fiction_prefix_rx cls @ [Plus is_digit]) url")
  case Nil
  then show ?thesis by (simp add: matches_unfold)
next
  case (Cons r L)
  then have "r \<in> set (rx_runs (fiction_prefix_rx cls @ [Plus is_digit]) url)" by simp
  from fiction_run_backward [OF this] obtain scheme www d t where
    f: "scheme = ''http'' \<or> scheme = ''https''" "www = [] \<or> www = ''www.''"
       "url = scheme @ ''://'' @ www @ domain cls @ ''.com/fiction/'' @ d # t"
    by blast
  have d: "is_digit d"
    using Cons fiction_run_forward [OF f(1,2), of cls d t] f(3) by (auto split: if_splits)
  have "url = (scheme @ ''://'' @ www) @ domain cls @ ''.com/fiction/'' @ d # t"
    using f(3) by simp
  with contains_fiction_id_append [OF d] assms show ?thesis by metis
qed

lemma matches_Some:
  assumes "matches cls url = Some c"
  shows "\<exists>scheme www d t. (scheme = ''http'' \<or> scheme = ''https'') \<and> (www = [] \<or> www = ''www.'')
           \<and> is_digit d
           \<and> url = scheme @ ''://'' @ www @ domain cls @ ''.com/fiction/'' @ d # t
           \<and> c = scheme @ ''://'' @ www @ domain cls @ ''.com/fiction/'' @ d # takeWhile is_digit t @ ''/''"
proof -
  from assms obtain r L where "rx_runs (fiction_prefix_rx cls @ [Plus is_digit]) url = r # L"
    by (auto simp: matches_unfold split: list.splits)
  then have "r \<in> set (rx_runs (fiction_prefix_rx cls @ [Plus is_digit]) url)" by simp
  from fiction_run_backward [OF this] obtain scheme www d t where
    f: "scheme = ''http'' \<or> scheme = ''https''" "www = [] \<or> www = ''www.''"
       "url = scheme @ ''://'' @ www @ domain cls @ ''.com/fiction/'' @ d # t"
    by blast
  from assms matches_form [OF f(1,2), of cls d t] f(3)
  have "is_digit d \<and> c = scheme @ ''://'' @ www @ domain cls @ ''.com/fiction/'' @ d # takeWhile is_digit t @ ''/''"
    by (auto split: if_splits)
  with f show ?thesis by blast
qed

text \<open>
  Claim C5. For a URL \<open>http(s)://[www.]<domain>.com/fiction/<digits>\<close>, alone or followed by
  a slash and a slug, \<open>matches\<close> returns the same scheme, host and identifier closed by one
  slash; for a URL in which \<open><domain>.com/fiction/<digit>\<close> stands nowhere, it returns
  nothing.
\<close>

theorem matches_canonical:
  "(\<forall>scheme www ident rest.
       (scheme = ''http'' \<or> scheme = ''https'') \<and> (www = [] \<or> www = ''www.'')
       \<and> ident \<noteq> [] \<and> (\<forall>c\<in>set ident. is_digit c)
       \<and> (rest = [] \<or> (\<exists>slug. rest = CHR ''/'' # slug))
     \<longrightarrow> matches cls (scheme @ ''://'' @ www @ domain cls @ ''.com/fiction/'' @ ident @ rest)
           = Some (scheme @ ''://'' @ www @ domain cls @ ''.com/fiction/'' @ ident @ ''/''))
   \<and> (\<forall>url. \<not> contains_fiction_id cls url \<longrightarrow> matches cls url = None)"
proof (intro conjI allI impI)
  fix scheme www ident rest
  assume h: "(scheme = ''http'' \<or> scheme = ''https'') \<and> (www = [] \<or> www = ''www.'')
       \<and> ident \<noteq> [] \<and> (\<forall>c\<in>set ident. is_digit c)
       \<and> (rest = [] \<or> (\<exists>slug. rest = CHR ''/'' # slug))"
  then obtain d ds where i: "ident = d # ds" by (cases ident) auto
  have nd: "\<not> is_digit CHR ''/''" by (simp add: is_digit_def)
  have "takeWhile is_digit (ds @ rest) = ds"
    using h i nd by (auto simp: takeWhile_append)
  then show "matches cls (scheme @ ''://'' @ www @ domain cls @ ''.com/fiction/'' @ ident @ rest)
           = Some (scheme @ ''://'' @ www @ domain cls @ ''.com/fiction/'' @ ident @ ''/'')"
    using h i matches_form [of scheme www cls d "ds @ rest"] by simp
next
  fix url assume "\<not> contains_fiction_id cls url"
  then show "matches cls url = None" by (rule matches_None)
qed

text \<open>
  Claim C10. Whatever \<open>matches\<close> returns is a fixed point of \<open>matches\<close>.
\<close>

theorem matches_fixed_point:
  assumes "matches cls u = Some c"
  shows "matches cls c = Some c"
proof -
  from matches_Some [OF assms] obtain scheme www d t where
    f: "scheme = ''http'' \<or> scheme = ''https''" "www = [] \<or> www = ''www.''" "is_digit d"
       "c = scheme @ ''://'' @ www @ domain cls @ ''.com/fiction/'' @ d # takeWhile is_digit t @ ''/''"
    by blast
  have nd: "\<not> is_digit CHR ''/''" by (simp add: is_digit_def)
  have "takeWhile is_digit (takeWhile is_digit t @ ''/'') = takeWhile is_digit t"
    using nd by (simp add: takeWhile_append)
  then show ?thesis
    using f matches_form [OF f(1,2), of cls d "takeWhile is_digit t @ ''/''"] by simp
qed


theorem matches_canonical_witness:
  "matches RoyalRoad ''https://www.royalroad.com/fiction/6752/lament-of-the-fallen''
     = Some ''https://www.royalroad.com/fiction/6752/''
   \<and> \<not> contains_fiction_id RoyalRoad ''https://www.royalroad.com/profile/6752''
   \<and> matches RoyalRoad ''https://www.royalroad.com/profile/6752'' = None"
proof -
  have h1: "(''https'' = ''http'' \<or> ''https'' = ''https'') \<and> (''www.'' = [] \<or> ''www.'' = ''www.'')
       \<and> ''6752'' \<noteq> [] \<and> (\<forall>c\<in>set ''6752''. is_digit c)
       \<and> (''/lament-of-the-fallen'' = [] \<or> (\<exists>slug. ''/lament-of-the-fallen'' = CHR ''/'' # slug))"
    by (simp add: is_digit_def)
  have h2: "\<not> contains_fiction_id RoyalRoad ''https://www.royalroad.com/profile/6752''"
    by (simp add: fiction_id_here_def)
  note t = matches_canonical [of RoyalRoad]
  from t [THEN conjunct1, rule_format, OF h1] t [THEN conjunct2, rule_format, OF h2] h2
  show ?thesis by simp
qed

theorem matches_fixed_point_witness:
  "matches RoyalRoadL ''http://royalroadldl.com/fiction/17/some-title'' = Some ''http://royalroadldl.com/fiction/17/''
   \<and> matches RoyalRoadL ''http://royalroadldl.com/fiction/17/'' = Some ''http://royalroadldl.com/fiction/17/''"
proof -
  have h: "matches RoyalRoadL ''http://royalroadldl.com/fiction/17/some-title'' = Some ''http://royalroadldl.com/fiction/17/''"
    by (simp add: matches_def re_match_group1_def fiction_prefix_rx_def fiction_tail_rx_def
        is_digit_def not_newline_def)
  from matches_fixed_point [OF h] h show ?thesis by simp
qed

section \<open>Properties of the chapter parser\<close>

lemma chapter_rr_chapterid:
  "chapter_rr fw slf url k = chapter_rr fw slf url k'"
  by (simp only: chapter_rr_def chapter_soup_def clean_spoilers_def)

lemma chapter_soup_self:
  "chapter_soup fw slf url k = chapter_soup fw slf' url k"
  by (simp add: chapter_soup_def)

lemma chapter_soup_Inr:
  assumes "chapter_soup fw slf url k = Inr (c, soup)"
  shows "\<exists>page content c1. soup_of fw url = Inr page
           \<and> find_first is_chapter_content page = Some content
           \<and> clean fw content page = (c1, None)
           \<and> clean_spoilers fw c1 k = Inr c
           \<and> soup = put (ident content) c page"
  using assms unfolding chapter_soup_def
  by (auto split: sum.splits option.splits prod.splits)

text \<open>
  Claim C8, as the code has it. The author's notes are looked up after the two cleaners
  have edited the content block in place. When the fetched page, with the content block as
  the hidden-warning remover and then the spoiler normalizer leave it, holds exactly two
  author's notes, the chapter parser gives the first note, \<open><hr/>\<close>, that cleaned content
  block, \<open><hr/>\<close> and the second note, unless reading the time stamp fails.
\<close>

theorem chapter_two_notes:
  assumes "soup_of fw url = Inr page"
    and "find_first is_chapter_content page = Some content"
    and "clean fw content page = (c1, None)"
    and "clean_spoilers fw c1 chapterid = Inr c2"
    and "find_all is_author_note (put (ident content) c2 page) = [note1, note2]"
  shows "chapter_rr fw slf url chapterid =
           (case updated_of fw (put (ident content) c2 page) of
              Inl e \<Rightarrow> Inl e
            | Inr updated \<Rightarrow>
                Inr (str_of fw note1 @ ''<hr/>'' @ str_of fw c2 @ ''<hr/>'' @ str_of fw note2,
                     updated))"
  using assms by (simp add: chapter_rr_def chapter_soup_def with_notes_def split: sum.splits)

text \<open>
  The claim as the spec states it fails at a chapter page with exactly two author's notes of
  which the second stands in the content block and is of a class that the page hides: the
  remover takes it out before the notes are counted, one note is left, and the content
  string is the first note, \<open><hr/>\<close> and the content.
\<close>

theorem chapter_two_notes_counterexample:
  "length (find_all is_author_note
      (demo_page [Elem 8 ''style'' None [] [Text ''.hid{display:none;}'']] [demo_note 20 ''first'']
         [Text ''text'', Elem 21 ''div'' (Some [''author-note-portlet'', ''hid'']) [] [Text ''second'']] [])) = 2
   \<and> chapter_rr
       (demo_fw (\<lambda>u. Inr (demo_page [Elem 8 ''style'' None [] [Text ''.hid{display:none;}'']]
          [demo_note 20 ''first'']
          [Text ''text'', Elem 21 ''div'' (Some [''author-note-portlet'', ''hid'']) [] [Text ''second'']] [])))
       (demo_self True None None) ''u'' 1
     = Inr (''<div class=author-note-portlet>first</div><hr/><div class=chapter-content>text</div>'',
            1700000000)"
  by code_simp

theorem chapter_two_notes_witness:
  "chapter_rr
     (demo_fw (\<lambda>u. Inr (demo_page [Elem 8 ''style'' None [] [Text ''.hid{display:none;}'']]
        [demo_note 20 ''first'']
        [Text ''text'', Elem 21 ''span'' (Some [''hid'']) [] [Text ''stolen''],
         demo_spoiler [demo_label '' Hint ''] [demo_body ''the answer is 42'']]
        [demo_note 22 ''second''])))
     (demo_self True None None) ''u'' 1
   = Inr (''<div class=author-note-portlet>first</div><hr/><div class=chapter-content>text<strong class=spoiler-header>[SPOILER - Hint]</strong><div class=spoiler-inner style=>the answer is 42</div></div><hr/><div class=author-note-portlet>second</div>'',
          1700000000)"
proof -
  let ?kids = "[Text ''text'', Elem 21 ''span'' (Some [''hid'']) [] [Text ''stolen''],
         demo_spoiler [demo_label '' Hint ''] [demo_body ''the answer is 42'']]"
  let ?page = "demo_page [Elem 8 ''style'' None [] [Text ''.hid{display:none;}'']]
        [demo_note 20 ''first''] ?kids [demo_note 22 ''second'']"
  let ?fw = "demo_fw (\<lambda>u. Inr ?page)"
  let ?content = "Elem 7 ''div'' (Some [''chapter-content'']) [] ?kids"
  let ?c1 = "Elem 7 ''div'' (Some [''chapter-content'']) []
        [Text ''text'', demo_spoiler [demo_label '' Hint ''] [demo_body ''the answer is 42'']]"
  let ?c2 = "Elem 7 ''div'' (Some [''chapter-content'']) []
        [Text ''text'',
         Elem 15 ''strong'' (Some [''spoiler-header'']) [] [Text ''[SPOILER - Hint]''],
         Elem 14 ''div'' (Some [''spoiler-inner'']) [(''style'', [])] [Text ''the answer is 42'']]"
  have a: "soup_of ?fw ''u'' = Inr ?page" by code_simp
  have b: "find_first is_chapter_content ?page = Some ?content" by code_simp
  have c: "clean ?fw ?content ?page = (?c1, None)" by code_simp
  have d: "clean_spoilers ?fw ?c1 1 = Inr ?c2" by code_simp
  have e: "find_all is_author_note (put (ident ?content) ?c2 ?page)
             = [demo_note 20 ''first'', demo_note 22 ''second'']"
    by code_simp
  have f: "updated_of ?fw (put (ident ?content) ?c2 ?page) = Inr 1700000000" by code_simp
  have g: "str_of ?fw (demo_note 20 ''first'') @ ''<hr/>'' @ str_of ?fw ?c2 @ ''<hr/>''
             @ str_of ?fw (demo_note 22 ''second'')
           = ''<div class=author-note-portlet>first</div><hr/><div class=chapter-content>text<strong class=spoiler-header>[SPOILER - Hint]</strong><div class=spoiler-inner style=>the answer is 42</div></div><hr/><div class=author-note-portlet>second</div>''"
    by code_simp
  show ?thesis
    using chapter_two_notes [OF a b c d e, of "demo_self True None None"] by (simp only: f g sum.case)
qed


section \<open>Properties of the spoiler normalizer\<close>

lemma spoiler_step_no_label:
  assumes "lookup_id i roots = Some spoiler" and "find_first is_smalltext spoiler = None"
  shows "spoiler_step fw i roots = Inl AttributeError"
  using assms by (simp add: spoiler_step_def)

lemma get_text_strip_label:
  "get_text_strip (string_containers (demo_fw pages))
     (Elem 11 ''div'' (Some [''smalltext'']) []
        [Text '' Hint '', Elem 12 ''script'' None [] [Text ''x()''], Elem 13 ''b'' None [] [Text '' 2 '']])
   = ''Hint2''"
  by code_simp

lemma clean_spoilers_empty_label:
  "clean_spoilers (demo_fw pages)
     (Elem 7 ''div'' (Some [''chapter-content'']) [] [demo_spoiler [demo_label ''  ''] [demo_body ''x'']]) k
   = Inr (Elem 7 ''div'' (Some [''chapter-content'']) []
            [Elem 15 ''strong'' (Some [''spoiler-header'']) [] [Text ''[SPOILER -  ]''],
             Elem 14 ''div'' (Some [''spoiler-inner'']) [(''style'', [])] [Text ''x'']])"
  by code_simp

text \<open>
  Claim C6, at a spoiler that has no label block: \<open>find\<close> gives \<open>None\<close>, and
  \<open>get_text\<close> is called on it.
\<close>

theorem clean_spoilers_label_absent:
  "clean_spoilers fw
     (Elem 7 ''div'' (Some [''chapter-content'']) [] [demo_spoiler [] [demo_body ''the answer is 42'']]) k
   = Inl AttributeError"
  by code_simp

lemma spoiler_step_frame:
  assumes "lookup_id i roots = Some spoiler"
    and "find_first is_smalltext spoiler = Some label"
    and "find_first is_spoiler_content spoiler = None
         \<or> (\<exists>sc. find_first is_spoiler_content spoiler = Some sc \<and> find_first is_spoiler_inner sc = None)"
  shows "spoiler_step fw i roots = Inr roots"
  using assms by (auto simp: spoiler_step_def Let_def)

lemma clean_spoilers_nested_raises:
  "clean_spoilers (demo_fw (\<lambda>u. Inl (Other ''no page'')))
     (Elem 7 ''div'' (Some [''chapter-content'']) []
        [demo_spoiler [demo_label ''Hint'']
           [demo_body ''x'',
            Elem 30 ''div'' (Some [''spoiler'']) []
              [Elem 31 ''div'' (Some [''smalltext'']) [] [Text ''Inner'']]]]) 1
   = Inl AttributeError"
  by code_simp

text \<open>
  Claim C7, at a spoiler that has neither a spoiler-content block nor a label block: the
  label is read first, \<open>find\<close> gives \<open>None\<close>, and \<open>get_text\<close> is called on it before the
  guarded lookups of the content are reached.
\<close>

theorem clean_spoilers_content_absent:
  "clean_spoilers (demo_fw (\<lambda>u. Inl (Other ''no page'')))
     (Elem 7 ''div'' (Some [''chapter-content'']) [] [demo_spoiler [] []]) 1
   = Inl AttributeError"
  by code_simp

section \<open>Properties of the story page parser\<close>

lemma kept_in_range:
  "(\<not> before_offset os i \<and> \<not> beyond_limit os i) = in_range os i"
  by (auto simp: before_offset_def beyond_limit_def in_range_def split: option.splits)

lemma chapters_loop_Cons:
  "chapters_loop fw slf (enumerate n (row # rows)) story =
     (if in_range (opts slf) n
      then (case row_chapter fw slf story row of
              Inl e \<Rightarrow> Inl e
            | Inr ch \<Rightarrow> chapters_loop fw slf (enumerate (Suc n) rows)
                         (story\<lparr>s_contents := s_contents story @ [ch]\<rparr>))
      else chapters_loop fw slf (enumerate (Suc n) rows) story)"
  unfolding kept_in_range [symmetric] by simp

lemma filter_enumerate_nths:
  "map snd (filter (\<lambda>(i, r). P i) (enumerate n rows)) = nths rows {i. P (i + n)}"
  by (induction rows arbitrary: n) (simp_all add: nths_Cons)

lemma row_chapter_story:
  assumes "s_url story' = s_url story"
  shows "row_chapter fw slf story' row = row_chapter fw slf story row"
  using assms
    chapter_rr_chapterid [of fw slf "row_url fw story row" "length (s_contents story') + 1"
      "length (s_contents story) + 1"]
  by (simp add: row_chapter_def row_url_def)

lemma chapters_loop_Inr:
  assumes "chapters_loop fw slf (enumerate n rows) story = Inr story'"
  shows "\<exists>chs. story' = story\<lparr>s_contents := s_contents story @ chs\<rparr>
           \<and> map Inr chs = map (row_chapter fw slf story)
                (map snd (filter (\<lambda>(i, r). in_range (opts slf) i) (enumerate n rows)))"
  using assms
proof (induction rows arbitrary: n story)
  case Nil
  then show ?case by simp
next
  case (Cons row rows)
  show ?case
  proof (cases "in_range (opts slf) n")
    case False
    then have "chapters_loop fw slf (enumerate (Suc n) rows) story = Inr story'"
      using Cons.prems by (simp only: chapters_loop_Cons if_False)
    from Cons.IH [OF this] False show ?thesis by simp
  next
    case True
    from Cons.prems True obtain ch where ch: "row_chapter fw slf story row = Inr ch"
      and l: "chapters_loop fw slf (enumerate (Suc n) rows) (story\<lparr>s_contents := s_contents story @ [ch]\<rparr>) = Inr story'"
      by (simp only: chapters_loop_Cons if_True split: sum.splits) simp
    let ?s1 = "story\<lparr>s_contents := s_contents story @ [ch]\<rparr>"
    from Cons.IH [OF l] obtain chs where
      chs: "story' = ?s1\<lparr>s_contents := s_contents ?s1 @ chs\<rparr>"
        "map Inr chs = map (row_chapter fw slf ?s1)
                (map snd (filter (\<lambda>(i, r). in_range (opts slf) i) (enumerate (Suc n) rows)))"
      by blast
    have r: "row_chapter fw slf ?s1 = row_chapter fw slf story"
      by (rule ext) (rule row_chapter_story, simp)
    have a: "story' = story\<lparr>s_contents := s_contents story @ (ch # chs)\<rparr>"
      using chs(1) by simp
    have b: "map Inr (ch # chs) = map (row_chapter fw slf story)
                (map snd (filter (\<lambda>(i, r). in_range (opts slf) i) (enumerate n (row # rows))))"
      using chs(2) ch True by (simp add: r)
    from a b show ?thesis by blast
  qed
qed

lemma extract_rr_Inr:
  assumes "extract_rr fw slf maxheaders url = (Inr story, slf', maxheaders')"
  shows "\<exists>workid soup base story0 story1.
           re_match_group1 (fiction_prefix_rx (klass slf)) [Plus is_digit] fiction_tail_rx url = Some workid
         \<and> soup_of fw (''https://www.'' @ domain (klass slf) @ ''.com/fiction/'' @ workid) = Inr soup
         \<and> new_section fw soup base = Inr story0
         \<and> chapters_loop fw slf (enumerate 0 (select_rows soup)) story0 = Inr story1
         \<and> story = story1\<lparr>s_footnotes := footnotes slf\<rparr>
         \<and> slf' = slf\<lparr>footnotes := []\<rparr> \<and> maxheaders' = maxheaders"
  using assms unfolding extract_rr_def Let_def
  by (auto split: option.splits sum.splits)

text \<open>
  Claim C2, at a story page that has no level-1 heading: the limit has been set to 1000,
  building the Story raises, and the assignment that restores the limit is not reached.
\<close>

theorem extract_maxheaders_after_failure:
  "extract_rr (demo_fw (demo_site (demo_story [] [demo_row 1 ''chapter/1'' ''One''])))
      (demo_self True None None) 100 ''https://www.royalroad.com/fiction/6752/a-title''
   = (Inl AttributeError, demo_self True None None, 1000)"
  by code_simp

lemma extract_maxheaders_after_success:
  assumes "extract_rr fw slf maxheaders url = (Inr story, slf', maxheaders')"
  shows "maxheaders' = maxheaders"
  using extract_rr_Inr [OF assms] by blast

text \<open>
  Claim C3, as the code has it. The Story that \<open>extract\<close> returns holds the Chapters of the
  rows whose index, counted from 0 over all the rows of the table, is at least \<open>offset\<close>
  (0 when unset) and below \<open>limit\<close> (no bound when unset or 0), in the order of the table.
  A row's Chapter depends on the Story only through its URL.
\<close>

theorem extract_chapters_in_range:
  assumes "extract_rr fw slf maxheaders url = (Inr story, slf', maxheaders')"
  shows "\<exists>workid soup.
           re_match_group1 (fiction_prefix_rx (klass slf)) [Plus is_digit] fiction_tail_rx url = Some workid
         \<and> soup_of fw (''https://www.'' @ domain (klass slf) @ ''.com/fiction/'' @ workid) = Inr soup
         \<and> map Inr (s_contents story)
             = map (row_chapter fw slf story) (nths (select_rows soup) {i. in_range (opts slf) i})"
proof -
  from extract_rr_Inr [OF assms] obtain workid soup base story0 story1 where
    w: "re_match_group1 (fiction_prefix_rx (klass slf)) [Plus is_digit] fiction_tail_rx url = Some workid"
    and s: "soup_of fw (''https://www.'' @ domain (klass slf) @ ''.com/fiction/'' @ workid) = Inr soup"
    and n: "new_section fw soup base = Inr story0"
    and l: "chapters_loop fw slf (enumerate 0 (select_rows soup)) story0 = Inr story1"
    and e: "story = story1\<lparr>s_footnotes := footnotes slf\<rparr>"
    by blast
  have z: "s_contents story0 = []"
    using n by (auto simp: new_section_def split: option.splits sum.splits)
  from chapters_loop_Inr [OF l] obtain chs where
    c: "story1 = story0\<lparr>s_contents := s_contents story0 @ chs\<rparr>"
       "map Inr chs = map (row_chapter fw slf story0)
          (map snd (filter (\<lambda>(i, r). in_range (opts slf) i) (enumerate 0 (select_rows soup))))"
    by blast
  have u: "s_url story = s_url story0" using c(1) e by simp
  have "row_chapter fw slf story = row_chapter fw slf story0"
    by (rule ext) (rule row_chapter_story [OF u])
  moreover have "s_contents story = chs" using c(1) e z by simp
  ultimately have "map Inr (s_contents story)
      = map (row_chapter fw slf story) (nths (select_rows soup) {i. in_range (opts slf) i})"
    using c(2) filter_enumerate_nths [of "in_range (opts slf)" 0 "select_rows soup"] by simp
  with w s show ?thesis by blast
qed
text \<open>
  The claim as the spec states it fails at \<open>limit = 0\<close>: the range \<open>[0, 0)\<close> holds no index,
  and the Story has the Chapters of both rows.
\<close>

theorem extract_limit_zero_counterexample:
  "(case fst (extract_rr
        (demo_fw (demo_site (demo_story [Elem 20 ''h1'' None [] [Text ''A Title'']]
            [demo_row 1 ''chapter/1'' ''One'', demo_row 2 ''chapter/2'' ''Two''])))
        (demo_self True None (Some 0)) 100 ''https://www.royalroad.com/fiction/6752/a-title'') of
      Inl e \<Rightarrow> []
    | Inr story \<Rightarrow> map ch_title (s_contents story)) = [''One'', ''Two'']
   \<and> filter (claimed_range (opts (demo_self True None (Some 0)))) [0, 1] = []"
  by code_simp

theorem extract_chapters_in_range_witness:
  "\<exists>workid soup.
      re_match_group1 (fiction_prefix_rx (klass (demo_self True (Some 1) (Some 2)))) [Plus is_digit]
        fiction_tail_rx ''https://www.royalroad.com/fiction/6752/a-title'' = Some workid
    \<and> soup_of (demo_fw (demo_site (demo_story [Elem 20 ''h1'' None [] [Text ''A Title'']]
            [demo_row 1 ''chapter/1'' ''One'', demo_row 2 ''chapter/2'' ''Two''])))
          (''https://www.'' @ domain (klass (demo_self True (Some 1) (Some 2))) @ ''.com/fiction/'' @ workid)
        = Inr soup
    \<and> map Inr (s_contents
          \<lparr>s_title = ''A Title'', s_author = ''An Author'',
             s_url = ''https://www.royalroad.com/fiction/6752/'',
             s_cover_url = ''https://www.royalroad.com/fiction/6752/a-titlecover.jpg'',
             s_summary = ''<div class=description>A summary</div>'',
             s_tags = [''Fantasy''],
             s_contents =
               [\<lparr>ch_title = ''Two'',
                   ch_contents = ''<div class=chapter-content>https://www.royalroad.com/fiction/6752/chapter/2</div>'',
                   ch_date = 1700000000\<rparr>],
             s_footnotes = []\<rparr>)
        = map (row_chapter
                 (demo_fw (demo_site (demo_story [Elem 20 ''h1'' None [] [Text ''A Title'']]
                    [demo_row 1 ''chapter/1'' ''One'', demo_row 2 ''chapter/2'' ''Two''])))
                 (demo_self True (Some 1) (Some 2))
                 \<lparr>s_title = ''A Title'', s_author = ''An Author'',
                    s_url = ''https://www.royalroad.com/fiction/6752/'',
                    s_cover_url = ''https://www.royalroad.com/fiction/6752/a-titlecover.jpg'',
                    s_summary = ''<div class=description>A summary</div>'',
                    s_tags = [''Fantasy''],
                    s_contents =
                      [\<lparr>ch_title = ''Two'',
                          ch_contents = ''<div class=chapter-content>https://www.royalroad.com/fiction/6752/chapter/2</div>'',
                          ch_date = 1700000000\<rparr>],
                    s_footnotes = []\<rparr>)
            (nths (select_rows soup) {i. in_range (opts (demo_self True (Some 1) (Some 2))) i})"
proof -
  have a: "extract_rr
        (demo_fw (demo_site (demo_story [Elem 20 ''h1'' None [] [Text ''A Title'']]
            [demo_row 1 ''chapter/1'' ''One'', demo_row 2 ''chapter/2'' ''Two''])))
        (demo_self True (Some 1) (Some 2)) 100 ''https://www.royalroad.com/fiction/6752/a-title''
     = (Inr \<lparr>s_title = ''A Title'', s_author = ''An Author'',
             s_url = ''https://www.royalroad.com/fiction/6752/'',
             s_cover_url = ''https://www.royalroad.com/fiction/6752/a-titlecover.jpg'',
             s_summary = ''<div class=description>A summary</div>'',
             s_tags = [''Fantasy''],
             s_contents =
               [\<lparr>ch_title = ''Two'',
                   ch_contents = ''<div class=chapter-content>https://www.royalroad.com/fiction/6752/chapter/2</div>'',
                   ch_date = 1700000000\<rparr>],
             s_footnotes = []\<rparr>,
        demo_self True (Some 1) (Some 2), 100)"
    by code_simp
  from extract_chapters_in_range [OF a] show ?thesis .
qed

section \<open>Properties of the hidden-warning remover\<close>

lemma find_unique:
  assumes "P e" "e \<in> set xs" "\<forall>y\<in>set xs. P y \<longrightarrow> y = e"
  shows "List.find P xs = Some e"
  using assms
proof (induction xs)
  case Nil
  then show ?case by simp
next
  case (Cons a xs)
  show ?case
  proof (cases "P a")
    case True
    have "a = e" using Cons.prems(3) True by (meson list.set_intros(1))
    with True show ?thesis by (simp only: find.simps if_True)
  next
    case False
    have "e \<noteq> a" using Cons.prems(1) False by blast
    then have m: "e \<in> set xs" using Cons.prems(2) by simp
    have "\<forall>y\<in>set xs. P y \<longrightarrow> y = e" using Cons.prems(3) by (meson list.set_intros(2))
    from Cons.IH [OF Cons.prems(1) m this] False show ?thesis by (simp only: find.simps if_False)
  qed
qed

lemma is_id_ident: "is_id i y \<Longrightarrow> ident y = i"
  by (cases y) auto

lemma is_id_ids: "is_id i y \<Longrightarrow> i \<in> set (ids y)"
  by (cases y) auto

lemma ids_descendants:
  "y \<in> set (descendants x) \<Longrightarrow> set (ids y) \<subseteq> set (ids x)"
proof (induction x arbitrary: y)
  case (Text s)
  then show ?case by simp
next
  case (Elem j n c a ks)
  then obtain k where k: "k \<in> set ks" "y = k \<or> y \<in> set (descendants k)" by auto
  then have "set (ids y) \<subseteq> set (ids k)" using Elem.IH by auto
  with k(1) show ?case by auto
qed

lemma distinct_concat_ids:
  assumes "distinct (concat (map ids ks))" "k1 \<in> set ks" "k2 \<in> set ks"
    "i \<in> set (ids k1)" "i \<in> set (ids k2)"
  shows "k1 = k2"
  using assms by (induction ks) auto

lemma unique_id:
  assumes "distinct (ids x)" "y \<in> set (x # descendants x)" "is_id i y"
    "z \<in> set (x # descendants x)" "is_id i z"
  shows "y = z"
  using assms
proof (induction x arbitrary: y z)
  case (Text s)
  then show ?case by simp
next
  case (Elem j n c a ks)
  let ?x = "Elem j n c a ks"
  have below: "i \<noteq> j" if "w \<in> set (descendants ?x)" "is_id i w" for w
  proof -
    from that obtain k where k: "k \<in> set ks" "w \<in> set (k # descendants k)" by auto
    then have "i \<in> set (ids k)" using that(2) is_id_ids ids_descendants by fastforce
    with k(1) Elem.prems(1) show ?thesis by auto
  qed
  show ?case
  proof (cases "y = ?x")
    case True
    then have "i = j" using Elem.prems(3) by simp
    with below Elem.prems(4,5) True show ?thesis by auto
  next
    case False
    then have yd: "y \<in> set (descendants ?x)" using Elem.prems(2) by simp
    with below Elem.prems(3) have "i \<noteq> j" by blast
    then have "z \<noteq> ?x" using Elem.prems(5) by auto
    then have zd: "z \<in> set (descendants ?x)" using Elem.prems(4) by simp
    from yd obtain k1 where k1: "k1 \<in> set ks" "y \<in> set (k1 # descendants k1)" by auto
    from zd obtain k2 where k2: "k2 \<in> set ks" "z \<in> set (k2 # descendants k2)" by auto
    have "i \<in> set (ids k1)" using k1(2) Elem.prems(3) is_id_ids ids_descendants by fastforce
    moreover have "i \<in> set (ids k2)" using k2(2) Elem.prems(5) is_id_ids ids_descendants by fastforce
    moreover have dc: "distinct (concat (map ids ks))" using Elem.prems(1) by simp
    ultimately have "k1 = k2" using distinct_concat_ids k1(1) k2(1) by blast
    moreover have "distinct (ids k1)" using dc k1(1) by (auto simp: distinct_concat_iff)
    ultimately show ?thesis using Elem.IH [OF k1(1) _ k1(2) Elem.prems(3)] k2(2) Elem.prems(5) by blast
  qed
qed

lemma lookup_id_distinct:
  assumes "distinct (ids x)" "e \<in> set (descendants x)" "is_id i e"
  shows "lookup_id i [x] = Some e"
proof -
  have m: "e \<in> set (x # descendants x)" using assms(2) by simp
  have "\<forall>y\<in>set (x # descendants x). is_id i y \<longrightarrow> y = e"
  proof (intro ballI impI)
    fix y assume "y \<in> set (x # descendants x)" "is_id i y"
    from unique_id [OF assms(1) this m assms(3)] show "y = e" .
  qed
  from find_unique [OF assms(3) m this] show ?thesis by (simp add: lookup_id_def)
qed

lemma is_tag_is_id: "is_tag nm x \<Longrightarrow> is_id (ident x) x"
  by (cases x) auto

lemma clean_styles_noop:
  assumes "distinct (ids (put cid c page))"
    and "set sts \<subseteq> set (descendants (put cid c page))"
    and "\<forall>st\<in>set sts. is_tag ''style'' st"
    and "\<forall>st\<in>set sts. case the_string st of None \<Rightarrow> True | Some s \<Rightarrow> hidden_class s = None"
  shows "clean_styles page cid sts c =
           (c, if \<forall>st\<in>set sts. the_string st \<noteq> None then None else Some TypeError)"
  using assms(2-4)
proof (induction sts)
  case Nil
  show ?case by simp
next
  case (Cons st sts)
  have m: "st \<in> set (descendants (put cid c page))" using Cons.prems(1) by simp
  have t: "is_id (ident st) st" using Cons.prems(2) is_tag_is_id by (meson list.set_intros(1))
  have l: "style_string (put cid c page) st = the_string st"
    using lookup_id_distinct [OF assms(1) m t] by (simp add: style_string_def)
  have ih: "clean_styles page cid sts c =
           (c, if \<forall>st\<in>set sts. the_string st \<noteq> None then None else Some TypeError)"
  proof (rule Cons.IH)
    show "set sts \<subseteq> set (descendants (put cid c page))" using Cons.prems(1) by simp
    show "\<forall>st\<in>set sts. is_tag ''style'' st" using Cons.prems(2) by (meson list.set_intros(2))
    show "\<forall>st\<in>set sts. case the_string st of None \<Rightarrow> True | Some s \<Rightarrow> hidden_class s = None"
      using Cons.prems(3) by (meson list.set_intros(2))
  qed
  show ?case
  proof (cases "the_string st")
    case None
    then show ?thesis by (simp add: l)
  next
    case (Some s)
    have "case the_string st of None \<Rightarrow> True | Some s \<Rightarrow> hidden_class s = None"
      using Cons.prems(3) by (meson list.set_intros(1))
    then have "hidden_class s = None" using Some by simp
    then show ?thesis using Some ih by (simp add: l)
  qed
qed

text \<open>
  Claim C9. On a page none of whose style elements holds a rule of the pattern, the
  hidden-warning remover leaves the content block as the generic cleaner left it; it raises
  \<open>TypeError\<close> when a style element has no single string, and nothing otherwise. The
  elements of the page are taken to be distinct objects.
\<close>

theorem clean_no_matching_rule:
  assumes "base_clean fw contents = Inr c"
    and "distinct (ids (put (ident contents) c full_page))"
    and "\<forall>style\<in>set (find_all (is_tag ''style'') (put (ident contents) c full_page)).
           case the_string style of None \<Rightarrow> True | Some s \<Rightarrow> hidden_class s = None"
  shows "clean fw contents full_page =
           (c, if \<forall>style\<in>set (find_all (is_tag ''style'') (put (ident contents) c full_page)).
                    the_string style \<noteq> None
               then None else Some TypeError)"
proof -
  let ?sts = "find_all (is_tag ''style'') (put (ident contents) c full_page)"
  have a: "set ?sts \<subseteq> set (descendants (put (ident contents) c full_page))"
    by (simp add: find_all_def)
  have b: "\<forall>st\<in>set ?sts. is_tag ''style'' st"
    by (simp add: find_all_def)
  from clean_styles_noop [OF assms(2) a b assms(3)] assms(1)
  show ?thesis by (simp add: clean_def)
qed

theorem clean_no_matching_rule_witness:
  "clean (demo_fw (\<lambda>u. Inl (Other ''no page'')))
     (Elem 7 ''div'' (Some [''chapter-content'']) [] [Elem 20 ''span'' (Some [''foo'']) [] [Text ''stolen'']])
     (demo_page [Elem 8 ''style'' None [] [Text ''.foo{display:none}''],
                 Elem 9 ''style'' None [] [Text ''body{color:red;}'']] []
        [Elem 20 ''span'' (Some [''foo'']) [] [Text ''stolen'']] [])
   = (Elem 7 ''div'' (Some [''chapter-content'']) [] [Elem 20 ''span'' (Some [''foo'']) [] [Text ''stolen'']],
      None)"
proof -
  let ?fw = "demo_fw (\<lambda>u. Inl (Other ''no page''))"
  let ?c = "Elem 7 ''div'' (Some [''chapter-content'']) [] [Elem 20 ''span'' (Some [''foo'']) [] [Text ''stolen'']]"
  let ?page = "demo_page [Elem 8 ''style'' None [] [Text ''.foo{display:none}''],
                 Elem 9 ''style'' None [] [Text ''body{color:red;}'']] []
        [Elem 20 ''span'' (Some [''foo'']) [] [Text ''stolen'']] []"
  have a: "base_clean ?fw ?c = Inr ?c" by code_simp
  have b: "distinct (ids (put (ident ?c) ?c ?page))" by code_simp
  have c: "\<forall>style\<in>set (find_all (is_tag ''style'') (put (ident ?c) ?c ?page)).
           case the_string style of None \<Rightarrow> True | Some s \<Rightarrow> hidden_class s = None"
    by code_simp
  have d: "(\<forall>style\<in>set (find_all (is_tag ''style'') (put (ident ?c) ?c ?page)).
                    the_string style \<noteq> None) = True"
    by code_simp
  from clean_no_matching_rule [OF a b c] show ?thesis by (simp only: d if_True)
qed

section \<open>What the hidden-warning remover removes\<close>

lemma subst_id_props:
  "is_id w (subst_id i f y) = is_id w y"
  "has_class g (subst_id i f y) = has_class g y"
  "ident (subst_id i f y) = ident y"
  by (cases y; cases "classes y"; simp)+

lemma descendants_subst_id:
  assumes "y \<in> set (descendants (subst_id i f x))"
  shows "(\<exists>y0\<in>set (descendants x). \<not> is_id i y0 \<and> y = subst_id i f y0)
       \<or> (\<exists>k\<in>set (descendants x). is_id i k \<and> (\<exists>z\<in>set (f k). y \<in> set (z # descendants z)))"
  using assms
proof (induction x arbitrary: y)
  case (Text s)
  then show ?case by simp
next
  case (Elem j n c a ks)
  have "\<exists>k\<in>set ks. (is_id i k \<and> (\<exists>z\<in>set (f k). y \<in> set (z # descendants z)))
          \<or> (\<not> is_id i k \<and> y \<in> set (subst_id i f k # descendants (subst_id i f k)))"
    using Elem.prems by (fastforce split: if_splits)
  then obtain k where k: "k \<in> set ks"
    and y: "(is_id i k \<and> (\<exists>z\<in>set (f k). y \<in> set (z # descendants z)))
          \<or> (\<not> is_id i k \<and> y \<in> set (subst_id i f k # descendants (subst_id i f k)))"
    by blast
  have sub: "w \<in> set (descendants (Elem j n c a ks))" if "w \<in> set (k # descendants k)" for w
    using that k by auto
  show ?case
  proof (cases "is_id i k")
    case True
    with y obtain z where "z \<in> set (f k)" "y \<in> set (z # descendants z)" by blast
    moreover have "k \<in> set (descendants (Elem j n c a ks))" using sub by simp
    ultimately show ?thesis using True by blast
  next
    case False
    with y have "y = subst_id i f k \<or> y \<in> set (descendants (subst_id i f k))" by simp
    then show ?thesis
    proof
      assume "y = subst_id i f k"
      moreover have "k \<in> set (descendants (Elem j n c a ks))" using sub by simp
      ultimately show ?thesis using False by blast
    next
      assume "y \<in> set (descendants (subst_id i f k))"
      from Elem.IH [OF k this] consider
        (a) y0 where "y0 \<in> set (descendants k)" "\<not> is_id i y0" "y = subst_id i f y0"
      | (b) k' z where "k' \<in> set (descendants k)" "is_id i k'" "z \<in> set (f k')"
          "y \<in> set (z # descendants z)"
        by blast
      then show ?thesis
      proof cases
        case a
        have "y0 \<in> set (descendants (Elem j n c a ks))" using sub a(1) by simp
        with a(2,3) show ?thesis by blast
      next
        case b
        have "k' \<in> set (descendants (Elem j n c a ks))" using sub b(1) by simp
        with b(2,3,4) show ?thesis by blast
      qed
    qed
  qed
qed

lemma descendants_remove_id:
  assumes "y \<in> set (descendants (remove_id i x))"
  shows "\<exists>y0\<in>set (descendants x). \<not> is_id i y0 \<and> y = remove_id i y0"
  using descendants_subst_id [of y i "\<lambda>k. []" x] assms by (simp add: remove_id_def)

lemma descendants_foldl_remove:
  assumes "y \<in> set (descendants (foldl (\<lambda>c w. remove_id (ident w) c) x ws))"
  shows "\<exists>y0\<in>set (descendants x). (\<forall>w\<in>set ws. \<not> is_id (ident w) y0)
            \<and> (\<forall>v. is_id v y = is_id v y0) \<and> (\<forall>g. has_class g y = has_class g y0)"
  using assms
proof (induction ws arbitrary: x)
  case Nil
  then show ?case by auto
next
  case (Cons w ws)
  from Cons.IH [of "remove_id (ident w) x"] Cons.prems
  obtain y1 where y1: "y1 \<in> set (descendants (remove_id (ident w) x))"
    "\<forall>w\<in>set ws. \<not> is_id (ident w) y1" "\<forall>v. is_id v y = is_id v y1" "\<forall>g. has_class g y = has_class g y1"
    by auto
  from descendants_remove_id [OF y1(1)] obtain y0 where
    y0: "y0 \<in> set (descendants x)" "\<not> is_id (ident w) y0" "y1 = remove_id (ident w) y0"
    by blast
  have "\<forall>w'\<in>set (w # ws). \<not> is_id (ident w') y0"
    using y0(2,3) y1(2) by (simp add: remove_id_def subst_id_props)
  moreover have "\<forall>v. is_id v y = is_id v y0" using y1(3) y0(3) by (simp add: remove_id_def subst_id_props)
  moreover have "\<forall>g. has_class g y = has_class g y0" using y1(4) y0(3) by (simp add: remove_id_def subst_id_props)
  ultimately show ?case using y0(1) by blast
qed

lemma has_class_is_id: "has_class g y \<Longrightarrow> is_id (ident y) y"
  by (cases y) auto

lemma decompose_all_free: "find_all (has_class g) (decompose_all g c) = []"
proof -
  have "\<not> has_class g y" if "y \<in> set (descendants (decompose_all g c))" for y
  proof
    assume h: "has_class g y"
    from that obtain y0 where y0: "y0 \<in> set (descendants c)"
      "\<forall>w\<in>set (find_all (has_class g) c). \<not> is_id (ident w) y0" "\<forall>g. has_class g y = has_class g y0"
      unfolding decompose_all_def using descendants_foldl_remove by blast
    then have "has_class g y0" using h by simp
    then have "y0 \<in> set (find_all (has_class g) c)" "is_id (ident y0) y0"
      using y0(1) has_class_is_id by (simp_all add: find_all_def)
    with y0(2) show False by blast
  qed
  then show ?thesis by (simp add: find_all_def filter_empty_conv)
qed

lemma decompose_all_keeps_free:
  assumes "find_all (has_class g) c = []"
  shows "find_all (has_class g) (decompose_all g' c) = []"
proof -
  have "\<not> has_class g y" if "y \<in> set (descendants (decompose_all g' c))" for y
  proof
    assume h: "has_class g y"
    from that obtain y0 where y0: "y0 \<in> set (descendants c)" "\<forall>g. has_class g y = has_class g y0"
      unfolding decompose_all_def using descendants_foldl_remove by blast
    then have "has_class g y0" using h by simp
    with y0(1) assms show False by (simp add: find_all_def filter_empty_conv)
  qed
  then show ?thesis by (simp add: find_all_def filter_empty_conv)
qed

lemma concat_map_if_single:
  assumes "\<And>k. k \<in> set ks \<Longrightarrow> g k = [k]"
  shows "concat (map g ks) = ks"
  using assms by (induction ks) auto

lemma subst_id_absent: "i \<notin> set (ids x) \<Longrightarrow> subst_id i f x = x"
proof (induction x)
  case (Text s)
  then show ?case by simp
next
  case (Elem j n c a ks)
  have "(if is_id i k then f k else [subst_id i f k]) = [k]" if "k \<in> set ks" for k
  proof -
    have "i \<notin> set (ids k)" using Elem.prems that by auto
    moreover then have "\<not> is_id i k" using is_id_ids by blast
    ultimately show ?thesis using Elem.IH that by simp
  qed
  then have "concat (map (\<lambda>k. if is_id i k then f k else [subst_id i f k]) ks) = ks"
    by (rule concat_map_if_single)
  then show ?case by simp
qed

lemma subst_id_self: "subst_id i (\<lambda>k. [k]) x = x"
proof (induction x)
  case (Text s)
  then show ?case by simp
next
  case (Elem j n c a ks)
  have "(if is_id i k then [k] else [subst_id i (\<lambda>k. [k]) k]) = [k]" if "k \<in> set ks" for k
    using Elem.IH that by simp
  then have "concat (map (\<lambda>k. if is_id i k then [k] else [subst_id i (\<lambda>k. [k]) k]) ks) = ks"
    by (rule concat_map_if_single)
  then show ?case by simp
qed

lemma outside_subst_id:
  assumes "e \<in> set (outside i x)" "i \<notin> set (ids e)"
  shows "e \<in> set (descendants (subst_id i f x))"
  using assms
proof (induction x)
  case (Text s)
  then show ?case by simp
next
  case (Elem j n c a ks)
  from Elem.prems(1) obtain k where k: "k \<in> set ks" "\<not> is_id i k" "e = k \<or> e \<in> set (outside i k)"
    by (auto split: if_splits)
  have "e \<in> set (subst_id i f k # descendants (subst_id i f k))"
  proof (cases "e = k")
    case True
    then show ?thesis using subst_id_absent [OF Elem.prems(2)] by simp
  next
    case False
    with k(3) have "e \<in> set (outside i k)" by simp
    from Elem.IH [OF k(1) this Elem.prems(2)] show ?thesis by simp
  qed
  with k(1,2) show ?case by auto
qed

lemma distinct_concat_shrink:
  assumes "\<And>k. k \<in> set ks \<Longrightarrow> distinct (F k) \<Longrightarrow> distinct (G k) \<and> set (G k) \<subseteq> set (F k)"
    and "distinct (concat (map F ks))"
  shows "distinct (concat (map G ks)) \<and> set (concat (map G ks)) \<subseteq> set (concat (map F ks))"
  using assms
proof (induction ks)
  case Nil
  then show ?case by simp
next
  case (Cons k ks)
  have d: "distinct (F k)" "distinct (concat (map F ks))" "set (F k) \<inter> set (concat (map F ks)) = {}"
    using Cons.prems(2) by auto
  have g: "distinct (G k)" "set (G k) \<subseteq> set (F k)" using Cons.prems(1) [of k] d(1) by auto
  have ih: "distinct (concat (map G ks))" "set (concat (map G ks)) \<subseteq> set (concat (map F ks))"
    using Cons.IH [OF _ d(2)] Cons.prems(1) by auto
  have "set (G k) \<inter> set (concat (map G ks)) = {}" using g(2) ih(2) d(3) by blast
  with g ih show ?case by auto
qed

lemma ids_subst_id:
  "ids (subst_id i f (Elem j n c a ks)) =
     j # concat (map (\<lambda>k. if is_id i k then concat (map ids (f k)) else ids (subst_id i f k)) ks)"
proof -
  have "concat (map ids (concat (map (\<lambda>k. if is_id i k then f k else [subst_id i f k]) ks)))
      = concat (map (\<lambda>k. if is_id i k then concat (map ids (f k)) else ids (subst_id i f k)) ks)"
    by (induction ks) auto
  then show ?thesis by simp
qed

lemma distinct_subst_shrink:
  assumes "\<And>k. distinct (concat (map ids (f1 k))) \<Longrightarrow>
              distinct (concat (map ids (f2 k)))
              \<and> set (concat (map ids (f2 k))) \<subseteq> set (concat (map ids (f1 k)))"
    and "distinct (ids (subst_id i f1 x))"
  shows "distinct (ids (subst_id i f2 x)) \<and> set (ids (subst_id i f2 x)) \<subseteq> set (ids (subst_id i f1 x))"
  using assms(2)
proof (induction x)
  case (Text s)
  then show ?case by simp
next
  case (Elem j n c a ks)
  let ?F = "\<lambda>k. if is_id i k then concat (map ids (f1 k)) else ids (subst_id i f1 k)"
  let ?G = "\<lambda>k. if is_id i k then concat (map ids (f2 k)) else ids (subst_id i f2 k)"
  have d: "j \<notin> set (concat (map ?F ks))" "distinct (concat (map ?F ks))"
    using Elem.prems unfolding ids_subst_id by auto
  have "distinct (?G k) \<and> set (?G k) \<subseteq> set (?F k)" if "k \<in> set ks" "distinct (?F k)" for k
    using that assms(1) [of k] Elem.IH [of k] by (cases "is_id i k") auto
  from distinct_concat_shrink [of ks ?F ?G, OF this d(2)]
  have g: "distinct (concat (map ?G ks))" "set (concat (map ?G ks)) \<subseteq> set (concat (map ?F ks))"
    by auto
  have "j \<notin> set (concat (map ?G ks))" using g(2) d(1) by blast
  with g have "distinct (j # concat (map ?G ks))
      \<and> set (j # concat (map ?G ks)) \<subseteq> set (j # concat (map ?F ks))"
    by (simp only: distinct.simps list.set) blast
  then show ?case by (simp only: ids_subst_id)
qed

lemma distinct_remove_id:
  assumes "distinct (ids x)"
  shows "distinct (ids (remove_id i x)) \<and> set (ids (remove_id i x)) \<subseteq> set (ids x)"
  using distinct_subst_shrink [of "\<lambda>k. [k]" "\<lambda>k. []" i x] assms
  by (simp add: subst_id_self remove_id_def)

lemma distinct_decompose_all:
  assumes "distinct (ids x)"
  shows "distinct (ids (decompose_all g x)) \<and> set (ids (decompose_all g x)) \<subseteq> set (ids x)"
proof -
  have "distinct (ids (foldl (\<lambda>c w. remove_id (ident w) c) x ws))
        \<and> set (ids (foldl (\<lambda>c w. remove_id (ident w) c) x ws)) \<subseteq> set (ids x)" for ws
    using assms
  proof (induction ws arbitrary: x)
    case Nil
    then show ?case by simp
  next
    case (Cons w ws)
    from distinct_remove_id [OF Cons.prems, of "ident w"] Cons.IH [of "remove_id (ident w) x"]
    show ?case by auto
  qed
  then show ?thesis by (simp add: decompose_all_def)
qed

lemma distinct_put_shrink:
  assumes "distinct (ids (put i c page))"
    and "distinct (ids c) \<Longrightarrow> distinct (ids c') \<and> set (ids c') \<subseteq> set (ids c)"
  shows "distinct (ids (put i c' page))"
  using distinct_subst_shrink [of "\<lambda>k. [c]" "\<lambda>k. [c']" i page] assms
  by (simp add: put_def)

lemma clean_styles_keeps_free:
  assumes "find_all (has_class g) c = []" "clean_styles page cid sts c = (c', e)"
  shows "find_all (has_class g) c' = []"
  using assms
proof (induction sts arbitrary: c)
  case Nil
  then show ?case by simp
next
  case (Cons a sts)
  show ?case
  proof (cases "style_string (put cid c page) a")
    case None
    with Cons.prems show ?thesis by simp
  next
    case (Some s)
    show ?thesis
    proof (cases "hidden_class s")
      case None
      with Some Cons.prems have "clean_styles page cid sts c = (c', e)" by simp
      from Cons.IH [OF Cons.prems(1) this] show ?thesis .
    next
      case (Some g')
      with \<open>style_string (put cid c page) a = Some s\<close> Cons.prems
      have "clean_styles page cid sts (decompose_all g' c) = (c', e)" by simp
      from Cons.IH [OF decompose_all_keeps_free [OF Cons.prems(1)] this] show ?thesis .
    qed
  qed
qed

lemma style_string_outside:
  assumes "distinct (ids (put cid c page))"
    and "st \<in> set (outside cid page)" "cid \<notin> set (ids st)" "is_tag ''style'' st"
  shows "style_string (put cid c page) st = the_string st"
proof -
  have "st \<in> set (descendants (put cid c page))"
    unfolding put_def using assms(2,3) by (rule outside_subst_id)
  from lookup_id_distinct [OF assms(1) this is_tag_is_id [OF assms(4)]]
  show ?thesis by (simp add: style_string_def)
qed

lemma clean_styles_removes:
  assumes "distinct (ids (put cid c page))"
    and "clean_styles page cid sts c = (c', None)"
    and "st \<in> set sts"
    and "st \<in> set (outside cid page)" "cid \<notin> set (ids st)" "is_tag ''style'' st"
    and "the_string st = Some s" "hidden_class s = Some g"
  shows "find_all (has_class g) c' = []"
  using assms(1-3)
proof (induction sts arbitrary: c)
  case Nil
  then show ?case by simp
next
  case (Cons a sts)
  note out = style_string_outside [OF Cons.prems(1) assms(4-6)]
  show ?case
  proof (cases "style_string (put cid c page) a")
    case None
    with Cons.prems(2) show ?thesis by simp
  next
    case (Some s')
    note a = Some
    show ?thesis
    proof (cases "hidden_class s'")
      case None
      with a Cons.prems(2) have r: "clean_styles page cid sts c = (c', None)" by simp
      have "a \<noteq> st" using a None out assms(7,8) by auto
      then have "st \<in> set sts" using Cons.prems(3) by simp
      from Cons.IH [OF Cons.prems(1) r this] show ?thesis .
    next
      case (Some g')
      with a Cons.prems(2) have r: "clean_styles page cid sts (decompose_all g' c) = (c', None)"
        by simp
      show ?thesis
      proof (cases "a = st")
        case True
        then have "g' = g" using a Some out assms(7,8) by simp
        then have "find_all (has_class g) (decompose_all g' c) = []"
          using decompose_all_free by simp
        from clean_styles_keeps_free [OF this r] show ?thesis .
      next
        case False
        then have m: "st \<in> set sts" using Cons.prems(3) by simp
        have "distinct (ids (put cid (decompose_all g' c) page))"
          using Cons.prems(1) distinct_decompose_all by (rule distinct_put_shrink)
        from Cons.IH [OF this r m] show ?thesis .
      qed
    qed
  qed
qed

lemma clean_removes:
  assumes "base_clean fw contents = Inr c"
    and "distinct (ids (put (ident contents) c full_page))"
    and "clean fw contents full_page = (c', None)"
    and "style \<in> set (outside (ident contents) full_page)" "ident contents \<notin> set (ids style)"
    and "is_tag ''style'' style"
    and "the_string style = Some s" "hidden_class s = Some g"
  shows "find_all (has_class g) c' = []"
proof -
  let ?sts = "find_all (is_tag ''style'') (put (ident contents) c full_page)"
  have "style \<in> set (descendants (put (ident contents) c full_page))"
    unfolding put_def using assms(4,5) by (rule outside_subst_id)
  then have m: "style \<in> set ?sts" using assms(6) by (simp add: find_all_def)
  have r: "clean_styles full_page (ident contents) ?sts c = (c', None)"
    using assms(1,3) by (simp add: clean_def)
  from clean_styles_removes [OF assms(2) r m assms(4-8)] show ?thesis .
qed

section \<open>The spoiler normalizer brings in no class but that of its headers\<close>

lemma descendants_trans:
  assumes "y \<in> set (descendants x)" "z \<in> set (descendants y)"
  shows "z \<in> set (descendants x)"
  using assms
proof (induction x)
  case (Text s)
  then show ?case by simp
next
  case (Elem j n c a ks)
  from Elem.prems(1) obtain k where k: "k \<in> set ks" "y = k \<or> y \<in> set (descendants k)" by auto
  then have "z \<in> set (descendants k)" using Elem.IH Elem.prems(2) by blast
  with k(1) show ?case by auto
qed

lemma find_all_free_iff:
  "find_all (has_class g) x = [] \<longleftrightarrow> (\<forall>y\<in>set (descendants x). \<not> has_class g y)"
  by (simp add: find_all_def filter_empty_conv)

lemma free_descendant:
  assumes "find_all (has_class g) x = []" "y \<in> set (descendants x)"
  shows "class_free g y"
  using assms descendants_trans unfolding find_all_free_iff class_free_def by auto

lemma class_free_descendant:
  assumes "class_free g x" "y \<in> set (descendants x)"
  shows "class_free g y"
  using assms descendants_trans unfolding class_free_def by auto

lemma free_subst_id:
  assumes "find_all (has_class g) x = []"
    and "\<And>k z. k \<in> set (descendants x) \<Longrightarrow> is_id i k \<Longrightarrow> z \<in> set (f k) \<Longrightarrow> class_free g z"
  shows "find_all (has_class g) (subst_id i f x) = []"
  unfolding find_all_free_iff
proof
  fix y assume "y \<in> set (descendants (subst_id i f x))"
  from descendants_subst_id [OF this] consider
    (a) y0 where "y0 \<in> set (descendants x)" "y = subst_id i f y0"
  | (b) k z where "k \<in> set (descendants x)" "is_id i k" "z \<in> set (f k)" "y \<in> set (z # descendants z)"
    by blast
  then show "\<not> has_class g y"
  proof cases
    case a
    then show ?thesis using assms(1) by (simp add: find_all_free_iff subst_id_props)
  next
    case b
    from assms(2) [OF b(1,2,3)] b(4) show ?thesis unfolding class_free_def by blast
  qed
qed

lemma class_free_subst_id:
  assumes "class_free g x"
    and "\<And>k z. k \<in> set (descendants x) \<Longrightarrow> is_id i k \<Longrightarrow> z \<in> set (f k) \<Longrightarrow> class_free g z"
  shows "class_free g (subst_id i f x)"
proof -
  have "find_all (has_class g) x = []" "\<not> has_class g x"
    using assms(1) by (simp_all add: class_free_def find_all_free_iff)
  from free_subst_id [OF this(1) assms(2)] this(2) show ?thesis
    by (simp add: class_free_def find_all_free_iff subst_id_props)
qed

lemma has_class_set_attr: "has_class g (set_attr k v y) = has_class g y"
  by (cases y; cases "classes y"; simp)

lemma descendants_set_attr: "descendants (set_attr k v y) = descendants y"
  by (cases y) simp_all

lemma has_class_update_id: "has_class g (update_id j (set_attr k v) y) = has_class g y"
  using has_class_set_attr by (cases y; cases "classes y"; simp)

lemma descendants_update_id:
  assumes "y \<in> set (descendants (update_id j (set_attr k v) x))"
  shows "\<exists>y0\<in>set (descendants x). has_class g y = has_class g y0"
  using assms
proof (induction x arbitrary: y)
  case (Text s)
  then show ?case by simp
next
  case (Elem j' n c a ks)
  show ?case
  proof (cases "j' = j")
    case True
    then have "y \<in> set (descendants (Elem j' n c a ks))"
      using Elem.prems descendants_set_attr [of k v "Elem j' n c a ks"] by simp
    then show ?thesis by blast
  next
    case False
    with Elem.prems obtain k' where k': "k' \<in> set ks"
      "y = update_id j (set_attr k v) k' \<or> y \<in> set (descendants (update_id j (set_attr k v) k'))"
      by auto
    have sub: "w \<in> set (descendants (Elem j' n c a ks))" if "w \<in> set (k' # descendants k')" for w
      using that k'(1) by auto
    from k'(2) show ?thesis
    proof
      assume "y = update_id j (set_attr k v) k'"
      then have "has_class g y = has_class g k'" by (simp add: has_class_update_id)
      moreover have "k' \<in> set (descendants (Elem j' n c a ks))" using sub by simp
      ultimately show ?thesis by blast
    next
      assume "y \<in> set (descendants (update_id j (set_attr k v) k'))"
      from Elem.IH [OF k'(1) this] obtain y0 where "y0 \<in> set (descendants k')"
        "has_class g y = has_class g y0" by blast
      moreover then have "y0 \<in> set (descendants (Elem j' n c a ks))" using sub by simp
      ultimately show ?thesis by blast
    qed
  qed
qed

lemma free_update_id:
  assumes "find_all (has_class g) x = []"
  shows "find_all (has_class g) (update_id j (set_attr k v) x) = []"
  using assms descendants_update_id [of _ j k v x g] unfolding find_all_free_iff by blast

lemma class_free_update_id:
  assumes "class_free g x"
  shows "class_free g (update_id j (set_attr k v) x)"
proof -
  have "find_all (has_class g) x = []" "\<not> has_class g x"
    using assms by (simp_all add: class_free_def find_all_free_iff)
  from free_update_id [OF this(1)] this(2) show ?thesis
    by (simp add: class_free_def find_all_free_iff has_class_update_id)
qed

lemma find_SomeD: "List.find P xs = Some y \<Longrightarrow> y \<in> set xs \<and> P y"
  by (induction xs) (auto split: if_splits)

lemma find_first_mem: "find_first P x = Some y \<Longrightarrow> y \<in> set (descendants x) \<and> P y"
  unfolding find_first_def by (rule find_SomeD)

lemma lookup_id_mem:
  assumes "lookup_id i roots = Some s"
  shows "\<exists>r\<in>set roots. s \<in> set (r # descendants r)"
  using find_SomeD [OF assms [unfolded lookup_id_def]] by auto

lemma roots_free_descendant:
  assumes "roots_free g roots" "r \<in> set roots" "y \<in> set (descendants r)"
  shows "class_free g y"
proof (cases roots)
  case Nil
  with assms(2) show ?thesis by simp
next
  case (Cons c extracted)
  show ?thesis
  proof (cases "r = c")
    case True
    then have "find_all (has_class g) r = []" using assms(1) Cons by (simp add: roots_free_def)
    then show ?thesis using assms(3) by (rule free_descendant)
  next
    case False
    then have "class_free g r" using assms(1,2) Cons by (simp add: roots_free_def)
    then show ?thesis using assms(3) by (rule class_free_descendant)
  qed
qed

lemma roots_free_subst_id:
  assumes "roots_free g roots"
    and "\<And>r k z. r \<in> set roots \<Longrightarrow> k \<in> set (descendants r) \<Longrightarrow> is_id i k \<Longrightarrow> z \<in> set (f k)
           \<Longrightarrow> class_free g z"
  shows "roots_free g (map (subst_id i f) roots)"
proof (cases roots)
  case Nil
  with assms(1) show ?thesis by (simp add: roots_free_def)
next
  case (Cons c extracted)
  have "find_all (has_class g) (subst_id i f c) = []"
  proof (rule free_subst_id)
    show "find_all (has_class g) c = []" using assms(1) Cons by (simp add: roots_free_def)
    show "class_free g z" if "k \<in> set (descendants c)" "is_id i k" "z \<in> set (f k)" for k z
      using assms(2) [of c k z] that Cons by simp
  qed
  moreover have "class_free g (subst_id i f d)" if "d \<in> set extracted" for d
  proof (rule class_free_subst_id)
    show "class_free g d" using assms(1) Cons that by (simp add: roots_free_def)
    show "class_free g z" if "k \<in> set (descendants d)" "is_id i k" "z \<in> set (f k)" for k z
      using assms(2) [of d k z] that \<open>d \<in> set extracted\<close> Cons by simp
  qed
  ultimately show ?thesis using Cons by (simp add: roots_free_def)
qed

lemma roots_free_remove_id:
  assumes "roots_free g roots"
  shows "roots_free g (map (remove_id i) roots)"
  unfolding remove_id_def using assms by (rule roots_free_subst_id) simp

lemma roots_free_update_id:
  assumes "roots_free g roots"
  shows "roots_free g (map (update_id j (set_attr k v)) roots)"
  using assms free_update_id class_free_update_id
  by (cases roots) (simp_all add: roots_free_def)

lemma roots_free_snoc:
  assumes "roots_free g roots" "class_free g x"
  shows "roots_free g (roots @ [x])"
  using assms by (cases roots) (simp_all add: roots_free_def)

lemma roots_free_extract_id:
  assumes "roots_free g roots"
  shows "roots_free g (extract_id t roots)"
proof (cases "List.find (is_id t) (concat (map descendants roots))")
  case None
  then show ?thesis using assms by (simp add: extract_id_def)
next
  case (Some x)
  from find_SomeD [OF this] obtain r where "r \<in> set roots" "x \<in> set (descendants r)" by auto
  then have "class_free g x" using assms roots_free_descendant by blast
  with roots_free_remove_id [OF assms, of t] have "roots_free g (map (remove_id t) roots @ [x])"
    by (rule roots_free_snoc)
  then show ?thesis using Some by (simp add: extract_id_def)
qed

lemma roots_free_foldl_extract:
  assumes "roots_free g roots"
  shows "roots_free g (foldl (\<lambda>r t. extract_id (ident t) r) roots ts)"
  using assms by (induction ts arbitrary: roots) (simp_all add: roots_free_extract_id)

lemma class_free_new_tag:
  assumes "g \<notin> set (case fst (new_tag_attrs fw nm c) of None \<Rightarrow> [] | Some cs \<Rightarrow> cs)"
  shows "class_free g (new_tag fw h nm c [Text t])"
  using assms
  by (cases "new_tag_attrs fw nm c"; cases "fst (new_tag_attrs fw nm c)")
     (simp_all add: new_tag_def class_free_def)

lemma spoiler_step_free:
  assumes "roots_free g roots"
    and "g \<notin> set (case fst (new_tag_attrs fw ''strong'' ''spoiler-header'') of None \<Rightarrow> [] | Some cs \<Rightarrow> cs)"
    and "spoiler_step fw i roots = Inr roots'"
  shows "roots_free g roots'"
proof (cases "lookup_id i roots")
  case None
  with assms(1,3) show ?thesis by (simp add: spoiler_step_def)
next
  case (Some spoiler)
  note sp = Some
  show ?thesis
  proof (cases "find_first is_smalltext spoiler")
    case None
    with sp assms(3) show ?thesis by (simp add: spoiler_step_def)
  next
    case (Some label)
    note lb = Some
    show ?thesis
    proof (cases "find_first is_spoiler_content spoiler")
      case None
      with sp lb assms(1,3) show ?thesis by (simp add: spoiler_step_def Let_def)
    next
      case (Some sc)
      note sc = Some
      show ?thesis
      proof (cases "find_first is_spoiler_inner sc")
        case None
        with sp lb sc assms(1,3) show ?thesis by (simp add: spoiler_step_def Let_def)
      next
        case (Some inner)
        define t where "t = (if get_text_strip (string_containers fw) label = [] then '' ''
           else get_text_strip (string_containers fw) label)"
        define h where "h = Suc (max_id roots)"
        define header where "header = new_tag fw h ''strong'' ''spoiler-header''
           [Text (''[SPOILER - '' @ t @ '']'')]"
        define r1 where "r1 = map (subst_id i (\<lambda>k. [header, k])) roots"
        define r2 where "r2 = map (subst_id h (\<lambda>k. [k, inner])) (map (remove_id (ident inner)) r1)"
        define r3 where "r3 = map (update_id (ident inner) (set_attr ''style'' [])) r2"
        define r4 where "r4 = foldl (\<lambda>r tag_to_remove. extract_id (ident tag_to_remove) r) r3
                       (case lookup_id i r3 of
                          None \<Rightarrow> []
                        | Some s \<Rightarrow> find_all (\<lambda>x. is_tag ''div'' x \<or> is_tag ''input'' x) s)"
        have "spoiler_step fw i roots =
                (if \<not> has_parent i roots then Inl ValueError else Inr (extract_id i r4))"
          by (simp only: spoiler_step_def sp lb sc Some option.case Let_def
              t_def h_def header_def r1_def r2_def r3_def r4_def)
        then have res: "roots' = extract_id i r4"
          using assms(3) by (simp split: if_splits)
        have hf: "class_free g header"
          unfolding header_def using assms(2) by (rule class_free_new_tag)
        from lookup_id_mem [OF sp] obtain r where r: "r \<in> set roots" "spoiler \<in> set (r # descendants r)"
          by blast
        have "sc \<in> set (descendants spoiler)" using find_first_mem [OF sc] by simp
        moreover have "inner \<in> set (descendants sc)" using find_first_mem [OF Some] by simp
        ultimately have "inner \<in> set (descendants spoiler)" by (rule descendants_trans)
        then have "inner \<in> set (descendants r)" using r(2) descendants_trans by auto
        then have inf: "class_free g inner" using assms(1) r(1) roots_free_descendant by blast
        have f1: "roots_free g r1"
          unfolding r1_def using assms(1)
        proof (rule roots_free_subst_id)
          show "class_free g z" if "r \<in> set roots" "k \<in> set (descendants r)" "z \<in> set [header, k]"
            for r k z
            using that hf roots_free_descendant [OF assms(1) that(1,2)] by auto
        qed
        have f1': "roots_free g (map (remove_id (ident inner)) r1)"
          using f1 by (rule roots_free_remove_id)
        have f2: "roots_free g r2"
          unfolding r2_def using f1'
        proof (rule roots_free_subst_id)
          show "class_free g z" if "r \<in> set (map (remove_id (ident inner)) r1)"
            "k \<in> set (descendants r)" "z \<in> set [k, inner]" for r k z
            using that inf roots_free_descendant [OF f1' that(1,2)] by auto
        qed
        have f3: "roots_free g r3" unfolding r3_def using f2 by (rule roots_free_update_id)
        have f4: "roots_free g r4" unfolding r4_def using f3 by (rule roots_free_foldl_extract)
        show ?thesis unfolding res using f4 by (rule roots_free_extract_id)
      qed
    qed
  qed
qed

lemma spoilers_loop_free:
  assumes "roots_free g roots"
    and "g \<notin> set (case fst (new_tag_attrs fw ''strong'' ''spoiler-header'') of None \<Rightarrow> [] | Some cs \<Rightarrow> cs)"
    and "spoilers_loop fw is roots = Inr roots'"
  shows "roots_free g roots'"
  using assms(1,3)
proof (induction "is" arbitrary: roots)
  case Nil
  then show ?case by simp
next
  case (Cons i rest)
  from Cons.prems(2) obtain r1 where s: "spoiler_step fw i roots = Inr r1"
    and l: "spoilers_loop fw rest r1 = Inr roots'"
    by (auto split: sum.splits)
  from Cons.IH [OF spoiler_step_free [OF Cons.prems(1) assms(2) s] l] show ?case .
qed

lemma clean_spoilers_free:
  assumes "find_all (has_class g) c = []"
    and "g \<notin> set (case fst (new_tag_attrs fw ''strong'' ''spoiler-header'') of None \<Rightarrow> [] | Some cs \<Rightarrow> cs)"
    and "clean_spoilers fw c chapterid = Inr c'"
  shows "find_all (has_class g) c' = []"
proof -
  from assms(3) obtain roots' where l: "spoilers_loop fw (map ident (find_all (has_class ''spoiler'') c)) [c] = Inr roots'"
    and c': "roots' = [] \<and> c' = c \<or> (\<exists>rest. roots' = c' # rest)"
    by (auto simp: clean_spoilers_def split: sum.splits list.splits)
  have "roots_free g [c]" using assms(1) by (simp add: roots_free_def)
  from spoilers_loop_free [OF this assms(2) l] c' show ?thesis
    by (auto simp: roots_free_def)
qed

section \<open>Hidden warnings in the chapter parser\<close>

text \<open>
  Claim C4, as the code has it. The pattern is matched at the start of the text of a style
  element and asks for \<open>display:\<close>, white space and \<open>none;\<close> with the semicolon. For
  every style element that stands outside the content block, holds a single string and
  matches with class \<open>g\<close>, the content block that \<open>_chapter\<close> serializes has no element of
  class \<open>g\<close> (but the block itself, and the header markers of the spoiler normalizer when
  \<open>g\<close> is their class): so all the matching rules are applied. When no style element
  matches, the block stays as the generic cleaner left it. The elements of the page are
  taken to be distinct objects.
\<close>

theorem chapter_hidden_warnings:
  assumes "soup_of fw url = Inr page"
    and "find_first is_chapter_content page = Some content"
    and "base_clean fw content = Inr c1"
    and "distinct (ids (put (ident content) c1 page))"
  shows "(\<forall>c soup style s g.
            chapter_soup fw slf url chapterid = Inr (c, soup)
            \<and> style \<in> set (outside (ident content) page) \<and> ident content \<notin> set (ids style)
            \<and> is_tag ''style'' style \<and> the_string style = Some s \<and> hidden_class s = Some g
            \<and> g \<notin> set (case fst (new_tag_attrs fw ''strong'' ''spoiler-header'') of
                          None \<Rightarrow> [] | Some cs \<Rightarrow> cs)
          \<longrightarrow> find_all (has_class g) c = []
              \<and> chapter_rr fw slf url chapterid =
                  (case with_notes fw soup (str_of fw c) of
                     Inl e \<Rightarrow> Inl e
                   | Inr content' \<Rightarrow>
                       (case updated_of fw soup of
                          Inl e \<Rightarrow> Inl e
                        | Inr updated \<Rightarrow> Inr (content', updated))))
       \<and> ((\<forall>style\<in>set (find_all (is_tag ''style'') (put (ident content) c1 page)).
              case the_string style of None \<Rightarrow> True | Some s \<Rightarrow> hidden_class s = None)
          \<longrightarrow> fst (clean fw content page) = c1)"
proof (intro conjI allI impI)
  fix c soup style s g
  assume h: "chapter_soup fw slf url chapterid = Inr (c, soup)
            \<and> style \<in> set (outside (ident content) page) \<and> ident content \<notin> set (ids style)
            \<and> is_tag ''style'' style \<and> the_string style = Some s \<and> hidden_class s = Some g
            \<and> g \<notin> set (case fst (new_tag_attrs fw ''strong'' ''spoiler-header'') of
                          None \<Rightarrow> [] | Some cs \<Rightarrow> cs)"
  then have cs: "chapter_soup fw slf url chapterid = Inr (c, soup)" by simp
  from chapter_soup_Inr [OF cs] assms(1,2) obtain c2 where
    c2: "clean fw content page = (c2, None)" "clean_spoilers fw c2 chapterid = Inr c"
    by auto
  have "find_all (has_class g) c2 = []"
    using clean_removes [OF assms(3,4) c2(1)] h by blast
  from clean_spoilers_free [OF this _ c2(2)] h
  show "find_all (has_class g) c = []" by blast
  show "chapter_rr fw slf url chapterid =
                  (case with_notes fw soup (str_of fw c) of
                     Inl e \<Rightarrow> Inl e
                   | Inr content' \<Rightarrow>
                       (case updated_of fw soup of
                          Inl e \<Rightarrow> Inl e
                        | Inr updated \<Rightarrow> Inr (content', updated)))"
    using cs by (simp add: chapter_rr_def)
next
  let ?sts = "find_all (is_tag ''style'') (put (ident content) c1 page)"
  assume n: "\<forall>style\<in>set ?sts. case the_string style of None \<Rightarrow> True | Some s \<Rightarrow> hidden_class s = None"
  have a: "set ?sts \<subseteq> set (descendants (put (ident content) c1 page))"
    by (simp add: find_all_def)
  have b: "\<forall>st\<in>set ?sts. is_tag ''style'' st"
    by (simp add: find_all_def)
  from clean_styles_noop [OF assms(4) a b n] assms(3)
  show "fst (clean fw content page) = c1" by (simp add: clean_def)
qed

text \<open>
  The claim as the spec states it fails at its own example: \<open>.foo{display:none}\<close> has no
  semicolon after \<open>none\<close>, the pattern does not match, and the element of class \<open>foo\<close>
  is serialized with the rest.
\<close>

theorem chapter_hidden_warning_counterexample:
  "chapter_rr (demo_fw (\<lambda>u. Inr (demo_page [Elem 8 ''style'' None [] [Text ''.foo{display:none}'']] []
        [Text ''text'', Elem 20 ''span'' (Some [''foo'']) [] [Text ''stolen'']] [])))
       (demo_self True None None) ''u'' 1
   = Inr (''<div class=chapter-content>text<span class=foo>stolen</span></div>'', 1700000000)"
  by code_simp

theorem chapter_hidden_warnings_witness:
  "chapter_soup
     (demo_fw (\<lambda>u. Inr (demo_page
        [Elem 8 ''style'' None [] [Text ''.foo{display:none;}''],
         Elem 9 ''style'' None [] [Text '' .bar { color: red; display: none; }'']] []
        [Text ''text'', Elem 20 ''span'' (Some [''foo'']) [] [Text ''stolen''],
         Elem 21 ''p'' (Some [''x'', ''bar'']) [] [Text ''also'']] [])))
     (demo_self True None None) ''u'' 1
   = Inr (Elem 7 ''div'' (Some [''chapter-content'']) [] [Text ''text''],
          demo_page
            [Elem 8 ''style'' None [] [Text ''.foo{display:none;}''],
             Elem 9 ''style'' None [] [Text '' .bar { color: red; display: none; }'']] []
            [Text ''text''] [])
   \<and> find_all (has_class ''foo'') (Elem 7 ''div'' (Some [''chapter-content'']) [] [Text ''text'']) = []
   \<and> find_all (has_class ''bar'') (Elem 7 ''div'' (Some [''chapter-content'']) [] [Text ''text'']) = []
   \<and> fst (clean (demo_fw (\<lambda>u. Inl (Other ''no page'')))
        (Elem 7 ''div'' (Some [''chapter-content'']) [] [Elem 20 ''span'' (Some [''foo'']) [] [Text ''stolen'']])
        (demo_page [Elem 8 ''style'' None [] [Text ''.foo{display:none}'']] []
           [Elem 20 ''span'' (Some [''foo'']) [] [Text ''stolen'']] []))
     = Elem 7 ''div'' (Some [''chapter-content'']) [] [Elem 20 ''span'' (Some [''foo'']) [] [Text ''stolen'']]"
proof -
  let ?s8 = "Elem 8 ''style'' None [] [Text ''.foo{display:none;}'']"
  let ?s9 = "Elem 9 ''style'' None [] [Text '' .bar { color: red; display: none; }'']"
  let ?kids = "[Text ''text'', Elem 20 ''span'' (Some [''foo'']) [] [Text ''stolen''],
         Elem 21 ''p'' (Some [''x'', ''bar'']) [] [Text ''also'']]"
  let ?page = "demo_page [?s8, ?s9] [] ?kids []"
  let ?fw = "demo_fw (\<lambda>u. Inr ?page)"
  let ?content = "Elem 7 ''div'' (Some [''chapter-content'']) [] ?kids"
  let ?c = "Elem 7 ''div'' (Some [''chapter-content'']) [] [Text ''text'']"
  let ?soup = "demo_page [?s8, ?s9] [] [Text ''text''] []"
  have a1: "soup_of ?fw ''u'' = Inr ?page" by code_simp
  have a2: "find_first is_chapter_content ?page = Some ?content" by code_simp
  have a3: "base_clean ?fw ?content = Inr ?content" by code_simp
  have a4: "distinct (ids (put (ident ?content) ?content ?page))" by code_simp
  have cs: "chapter_soup ?fw (demo_self True None None) ''u'' 1 = Inr (?c, ?soup)" by code_simp
  have h8: "chapter_soup ?fw (demo_self True None None) ''u'' 1 = Inr (?c, ?soup)
            \<and> ?s8 \<in> set (outside (ident ?content) ?page) \<and> ident ?content \<notin> set (ids ?s8)
            \<and> is_tag ''style'' ?s8 \<and> the_string ?s8 = Some ''.foo{display:none;}''
            \<and> hidden_class ''.foo{display:none;}'' = Some ''foo''
            \<and> ''foo'' \<notin> set (case fst (new_tag_attrs ?fw ''strong'' ''spoiler-header'') of
                          None \<Rightarrow> [] | Some cs \<Rightarrow> cs)"
    by code_simp
  have h9: "chapter_soup ?fw (demo_self True None None) ''u'' 1 = Inr (?c, ?soup)
            \<and> ?s9 \<in> set (outside (ident ?content) ?page) \<and> ident ?content \<notin> set (ids ?s9)
            \<and> is_tag ''style'' ?s9 \<and> the_string ?s9 = Some '' .bar { color: red; display: none; }''
            \<and> hidden_class '' .bar { color: red; display: none; }'' = Some ''bar''
            \<and> ''bar'' \<notin> set (case fst (new_tag_attrs ?fw ''strong'' ''spoiler-header'') of
                          None \<Rightarrow> [] | Some cs \<Rightarrow> cs)"
    by code_simp
  note t = chapter_hidden_warnings [OF a1 a2 a3 a4, of "demo_self True None None" 1]
  have r8: "find_all (has_class ''foo'') ?c = []"
    using t [THEN conjunct1, rule_format, OF h8] by (rule conjunct1)
  have r9: "find_all (has_class ''bar'') ?c = []"
    using t [THEN conjunct1, rule_format, OF h9] by (rule conjunct1)
  let ?fw2 = "demo_fw (\<lambda>u. Inl (Other ''no page''))"
  let ?c2 = "Elem 7 ''div'' (Some [''chapter-content'']) [] [Elem 20 ''span'' (Some [''foo'']) [] [Text ''stolen'']]"
  let ?page2 = "demo_page [Elem 8 ''style'' None [] [Text ''.foo{display:none}'']] []
           [Elem 20 ''span'' (Some [''foo'']) [] [Text ''stolen'']] []"
  have b1: "soup_of (demo_fw (\<lambda>u. Inr ?page2)) ''u'' = Inr ?page2" by code_simp
  have b2: "find_first is_chapter_content ?page2 = Some ?c2" by code_simp
  have b3: "base_clean (demo_fw (\<lambda>u. Inr ?page2)) ?c2 = Inr ?c2" by code_simp
  have b4: "distinct (ids (put (ident ?c2) ?c2 ?page2))" by code_simp
  have b5: "\<forall>style\<in>set (find_all (is_tag ''style'') (put (ident ?c2) ?c2 ?page2)).
              case the_string style of None \<Rightarrow> True | Some s \<Rightarrow> hidden_class s = None"
    by code_simp
  have r2: "fst (clean (demo_fw (\<lambda>u. Inr ?page2)) ?c2 ?page2) = ?c2"
    using chapter_hidden_warnings [OF b1 b2 b3 b4, THEN conjunct2, THEN mp, OF b5] .
  have e: "clean ?fw2 ?c2 ?page2 = clean (demo_fw (\<lambda>u. Inr ?page2)) ?c2 ?page2"
    by (simp add: clean_def demo_fw_def)
  from cs r8 r9 r2 e show ?thesis by (simp only:) 
qed

end
